theory Spec2Isabelle
  imports Main "HOL-Library.Word" "HOL-Library.Log_Nat"
begin

section \<open>JavaScript values\<close>

text \<open>
  A JavaScript string is a sequence of UTF-16 code units. ASCII literals of the source are
  written with \<open>lit\<close>; other characters are given by their code units.
\<close>

type_synonym jsstring = "16 word list"

definition lit :: "string \<Rightarrow> jsstring" where
  "lit s = map (\<lambda>c. of_nat (of_char c)) s"

text \<open>
  A JavaScript number is an IEEE 754 double: not a number, an infinity, or a finite
  double, given by the rational it denotes.
\<close>

datatype jsnumber = NaN | PosInfinity | NegInfinity | Finite rat

text \<open>Telegram user ids and token addresses (the strings ethers returns).\<close>

type_synonym uid = int
type_synonym address = jsstring

text \<open>
  A JavaScript \<open>Set\<close> keeps its members in insertion order and holds none twice; a
  \<open>Map\<close> does the same for its keys. Both are lists here, with the operations the
  source calls.
\<close>

definition set_has :: "'a list \<Rightarrow> 'a \<Rightarrow> bool" where
  "set_has xs x = (x \<in> set xs)"

definition set_add :: "'a \<Rightarrow> 'a list \<Rightarrow> 'a list" where
  "set_add x xs = (if x \<in> set xs then xs else xs @ [x])"

definition set_delete :: "'a \<Rightarrow> 'a list \<Rightarrow> 'a list" where
  "set_delete x xs = filter (\<lambda>y. y \<noteq> x) xs"

definition map_has :: "('k \<times> 'v) list \<Rightarrow> 'k \<Rightarrow> bool" where
  "map_has m k = (map_of m k \<noteq> None)"

definition map_set :: "'k \<Rightarrow> 'v \<Rightarrow> ('k \<times> 'v) list \<Rightarrow> ('k \<times> 'v) list" where
  "map_set k v m =
     (if map_has m k then map (\<lambda>(k', v'). if k' = k then (k', v) else (k', v')) m
      else m @ [(k, v)])"

definition map_delete :: "'k \<Rightarrow> ('k \<times> 'v) list \<Rightarrow> ('k \<times> 'v) list" where
  "map_delete k m = filter (\<lambda>(k', v'). k' \<noteq> k) m"

section \<open>State\<close>

datatype language = En | Zh

text \<open>
  \<open>mcUsdThreshold\<close> is \<open>null\<close> or the number \<open>Math.floor\<close> returned, an integer.
\<close>

record prefs =
  requireMediaLink :: bool
  mcUsdThreshold :: "int option"
  lang :: language

record alert_data =
  lastPushed :: int
  users :: "uid list"

type_synonym registry = "(address \<times> alert_data) list"

record state =
  subscribedUsers :: "uid list"
  userPushPrefs :: "uid \<rightharpoonup> prefs"
  marketCapAlerts :: registry
  lastMcCheck :: int
  lastProcessed :: int
  sentKeys :: "jsstring list"

definition init_state :: state where
  "init_state = \<lparr> subscribedUsers = [], userPushPrefs = Map.empty, marketCapAlerts = [],
     lastMcCheck = 0, lastProcessed = 0, sentKeys = [] \<rparr>"

definition MC_CHECK_INTERVAL :: int where
  "MC_CHECK_INTERVAL = 5 * 60 * 1000"

definition default_prefs :: prefs where
  "default_prefs = \<lparr> requireMediaLink = False, mcUsdThreshold = None, lang = En \<rparr>"

text \<open>
  \<open>getPrefs\<close> creates the default preferences on first sight and returns the stored
  object; a write to a field of the returned object is \<open>putPrefs\<close>.
\<close>

definition getPrefs :: "uid \<Rightarrow> (uid \<rightharpoonup> prefs) \<Rightarrow> prefs \<times> (uid \<rightharpoonup> prefs)" where
  "getPrefs i m = (case m i of None \<Rightarrow> (default_prefs, m(i \<mapsto> default_prefs)) | Some p \<Rightarrow> (p, m))"

definition putPrefs :: "uid \<Rightarrow> prefs \<Rightarrow> (uid \<rightharpoonup> prefs) \<Rightarrow> (uid \<rightharpoonup> prefs)" where
  "putPrefs i p m = m(i \<mapsto> p)"

definition setLang :: "uid \<Rightarrow> language \<Rightarrow> (uid \<rightharpoonup> prefs) \<Rightarrow> (uid \<rightharpoonup> prefs)" where
  "setLang i l m = (let (p, m1) = getPrefs i m in putPrefs i (p\<lparr>lang := l\<rparr>) m1)"

text \<open>The truthiness test \<open>prefs.mcUsdThreshold && ...\<close>: \<open>null\<close> and \<open>0\<close> are falsy.\<close>

definition threshold_truthy :: "int option \<Rightarrow> bool" where
  "threshold_truthy t = (case t of None \<Rightarrow> False | Some v \<Rightarrow> v \<noteq> 0)"

section \<open>The alert registry\<close>

text \<open>\<open>now\<close> is the value of \<open>Date.now()\<close> at the call.\<close>

definition addToMarketCapAlerts :: "address \<Rightarrow> uid \<Rightarrow> int \<Rightarrow> registry \<Rightarrow> registry" where
  "addToMarketCapAlerts tokenAddr userId now reg =
     (let reg1 = (if \<not> map_has reg tokenAddr
                  then map_set tokenAddr \<lparr> lastPushed = now, users = [] \<rparr> reg else reg)
      in case map_of reg1 tokenAddr of
           None \<Rightarrow> reg1
         | Some alertData \<Rightarrow>
             map_set tokenAddr (alertData\<lparr>users := set_add userId (users alertData)\<rparr>) reg1)"

definition removeFromMarketCapAlerts :: "address \<Rightarrow> uid \<Rightarrow> registry \<Rightarrow> registry" where
  "removeFromMarketCapAlerts tokenAddr userId reg =
     (case map_of reg tokenAddr of
        None \<Rightarrow> reg
      | Some alertData \<Rightarrow>
          (let us = set_delete userId (users alertData)
           in if length us = 0 then map_delete tokenAddr reg
              else map_set tokenAddr (alertData\<lparr>users := us\<rparr>) reg))"

text \<open>
  The \<open>clear_all_alerts\<close> callback: one pass over the entries of the map, deleting the
  user from each and the entry itself when it is left empty.
\<close>

fun clear_all_alerts :: "uid \<Rightarrow> registry \<Rightarrow> registry" where
  "clear_all_alerts userId [] = []"
| "clear_all_alerts userId ((tokenAddr, alertData) # rest) =
     (let us = set_delete userId (users alertData)
      in if length us = 0 then clear_all_alerts userId rest
         else (tokenAddr, alertData\<lparr>users := us\<rparr>) # clear_all_alerts userId rest)"

definition entry_exists :: "registry \<Rightarrow> address \<Rightarrow> bool" where
  "entry_exists reg tokenAddr = map_has reg tokenAddr"

definition subscribers :: "registry \<Rightarrow> address \<Rightarrow> uid set" where
  "subscribers reg tokenAddr =
     (case map_of reg tokenAddr of None \<Rightarrow> {} | Some alertData \<Rightarrow> set (users alertData))"

section \<open>Setting the threshold\<close>

text \<open>What the handler answers: a rejection, or the number of tokens newly subscribed.\<close>

datatype reply = Rejected | Accepted nat

text \<open>
  The loop after the threshold is stored: every entry of the registry the user is not
  in gets the user; the count of such entries is reported in the reply.
\<close>

fun subscribe_existing :: "uid \<Rightarrow> int \<Rightarrow> address list \<Rightarrow> registry \<Rightarrow> nat \<Rightarrow> registry \<times> nat" where
  "subscribe_existing userId now [] reg addedCount = (reg, addedCount)"
| "subscribe_existing userId now (tokenAddr # rest) reg addedCount =
     (case map_of reg tokenAddr of
        None \<Rightarrow> subscribe_existing userId now rest reg addedCount
      | Some alertData \<Rightarrow>
          if \<not> set_has (users alertData) userId
          then subscribe_existing userId now rest
                 (addToMarketCapAlerts tokenAddr userId now reg) (addedCount + 1)
          else subscribe_existing userId now rest reg addedCount)"

text \<open>
  The handler of a reply message (\<open>bot.on('message')\<close> with \<open>reply_to_message\<close>
  set): \<open>n\<close> is the value of \<open>Number((ctx.message.text || '').trim())\<close>.
\<close>

definition on_message :: "uid \<Rightarrow> jsnumber \<Rightarrow> int \<Rightarrow> state \<Rightarrow> state \<times> reply" where
  "on_message from_id n now s =
     (let (p, m1) = getPrefs from_id (userPushPrefs s);
          s1 = s\<lparr>userPushPrefs := m1\<rparr>
      in case n of
           Finite r \<Rightarrow>
             if r \<le> 0 then (s1, Rejected)
             else
               (let m2 = putPrefs from_id (p\<lparr>mcUsdThreshold := Some (floor r)\<rparr>) m1;
                    (reg, addedCount) =
                      subscribe_existing from_id now (map fst (marketCapAlerts s))
                        (marketCapAlerts s) 0
                in (s1\<lparr>userPushPrefs := m2, marketCapAlerts := reg\<rparr>, Accepted addedCount))
         | _ \<Rightarrow> (s1, Rejected))"

definition stored_threshold :: "state \<Rightarrow> uid \<Rightarrow> int option" where
  "stored_threshold s i = (case userPushPrefs s i of None \<Rightarrow> None | Some p \<Rightarrow> mcUsdThreshold p)"

section \<open>Text\<close>

text \<open>\<open>BigInt.prototype.toString()\<close> of a non-negative value: its decimal digits.\<close>

fun dec :: "nat \<Rightarrow> jsstring" where
  "dec n = (if n < 10 then [of_nat (48 + n)] else dec (n div 10) @ [of_nat (48 + n mod 10)])"

declare dec.simps [simp del]

text \<open>
  \<open>ethers.formatUnits(value, decimals)\<close> (and \<open>formatEther\<close>, which is
  \<open>formatUnits(value, 18)\<close>): the library's fixed-point text, integer part, a point,
  and the fraction without trailing zeros but with at least one digit.
\<close>

definition pad_left :: "nat \<Rightarrow> jsstring \<Rightarrow> jsstring" where
  "pad_left n s = replicate (n - length s) 48 @ s"

definition strip_zeros :: "jsstring \<Rightarrow> jsstring" where
  "strip_zeros s = rev (dropWhile (\<lambda>c. c = 48) (rev s))"

definition formatUnits :: "nat \<Rightarrow> nat \<Rightarrow> jsstring" where
  "formatUnits v d =
     (if d = 0 then dec v
      else (let frac = strip_zeros (pad_left d (dec (v mod 10 ^ d)))
            in dec (v div 10 ^ d) @ lit ''.'' @ (if frac = [] then lit ''0'' else frac)))"

definition formatEther :: "nat \<Rightarrow> jsstring" where
  "formatEther v = formatUnits v 18"

text \<open>
  The code units \<open>String.prototype.trim\<close> strips: the white space and line terminators
  of ECMAScript.
\<close>

definition isWhiteSpace :: "16 word \<Rightarrow> bool" where
  "isWhiteSpace c =
     (c \<in> {0x09, 0x0A, 0x0B, 0x0C, 0x0D, 0x20, 0xA0, 0x1680, 0x2028, 0x2029, 0x202F,
            0x205F, 0x3000, 0xFEFF}
      \<or> (0x2000 \<le> c \<and> c \<le> 0x200A))"

definition trim :: "jsstring \<Rightarrow> jsstring" where
  "trim s = rev (dropWhile isWhiteSpace (rev (dropWhile isWhiteSpace s)))"

text \<open>
  \<open>String.prototype.toLowerCase\<close> on the strings it is applied to here, the ASCII
  text of an address.
\<close>

definition toLowerCase :: "jsstring \<Rightarrow> jsstring" where
  "toLowerCase s = map (\<lambda>c. if 0x41 \<le> c \<and> c \<le> 0x5A then c + 0x20 else c) s"

definition join :: "jsstring \<Rightarrow> jsstring list \<Rightarrow> jsstring" where
  "join sep xs = (case xs of [] \<Rightarrow> [] | x # rest \<Rightarrow> x @ concat (map (\<lambda>y. sep @ y) rest))"

text \<open>The sentinel of an unset field, the one-character string U+65E0.\<close>

definition unset :: jsstring where
  "unset = [0x65E0]"

section \<open>Numbers\<close>

text \<open>
  \<open>to_double\<close> rounds a rational to the nearest double, ties to the even
  significand: 53 bits of significand, the exponent from \<open>-1022\<close> (below it the
  spacing of the subnormals, \<open>2^-1074\<close>) and overflow to an infinity from
  \<open>2^1024\<close>. Every zero below is the value of a non-negative quantity, so the sign of
  zero, which a rational does not carry, is plus.
\<close>

definition pow2 :: "int \<Rightarrow> rat" where
  "pow2 e = (if 0 \<le> e then 2 ^ nat e else 1 / 2 ^ nat (- e))"

definition floor_log2 :: "rat \<Rightarrow> int" where
  "floor_log2 x =
     (let (p, q) = quotient_of x; e0 = bitlen p - bitlen q
      in if pow2 e0 \<le> x then e0 else e0 - 1)"

definition round_half_even :: "rat \<Rightarrow> int" where
  "round_half_even x =
     (let f = floor x; d = x - of_int f
      in if d < 1 / 2 then f else if 1 / 2 < d then f + 1 else if even f then f else f + 1)"

definition to_double :: "rat \<Rightarrow> jsnumber" where
  "to_double x =
     (if x = 0 then Finite 0
      else (let a = \<bar>x\<bar>;
                e = max (floor_log2 a) (- 1022);
                ulp = pow2 (e - 52);
                y = of_int (round_half_even (a / ulp)) * ulp
            in if pow2 1024 \<le> y then (if 0 < x then PosInfinity else NegInfinity)
               else Finite (if 0 < x then y else - y)))"

text \<open>Division and multiplication of doubles, and the comparison \<open>>=\<close>.\<close>

fun js_div :: "jsnumber \<Rightarrow> jsnumber \<Rightarrow> jsnumber" where
  "js_div (Finite a) (Finite b) =
     (if b = 0 then (if a = 0 then NaN else if 0 < a then PosInfinity else NegInfinity)
      else to_double (a / b))"
| "js_div (Finite a) PosInfinity = Finite 0"
| "js_div (Finite a) NegInfinity = Finite 0"
| "js_div PosInfinity (Finite b) = (if 0 \<le> b then PosInfinity else NegInfinity)"
| "js_div NegInfinity (Finite b) = (if 0 \<le> b then NegInfinity else PosInfinity)"
| "js_div _ _ = NaN"

fun js_mul :: "jsnumber \<Rightarrow> jsnumber \<Rightarrow> jsnumber" where
  "js_mul (Finite a) (Finite b) = to_double (a * b)"
| "js_mul (Finite a) PosInfinity = (if a = 0 then NaN else if 0 < a then PosInfinity else NegInfinity)"
| "js_mul (Finite a) NegInfinity = (if a = 0 then NaN else if 0 < a then NegInfinity else PosInfinity)"
| "js_mul PosInfinity (Finite b) = (if b = 0 then NaN else if 0 < b then PosInfinity else NegInfinity)"
| "js_mul NegInfinity (Finite b) = (if b = 0 then NaN else if 0 < b then NegInfinity else PosInfinity)"
| "js_mul PosInfinity PosInfinity = PosInfinity"
| "js_mul NegInfinity NegInfinity = PosInfinity"
| "js_mul PosInfinity NegInfinity = NegInfinity"
| "js_mul NegInfinity PosInfinity = NegInfinity"
| "js_mul _ _ = NaN"

fun js_ge :: "jsnumber \<Rightarrow> jsnumber \<Rightarrow> bool" where
  "js_ge (Finite a) (Finite b) = (b \<le> a)"
| "js_ge PosInfinity (Finite b) = True"
| "js_ge PosInfinity PosInfinity = True"
| "js_ge PosInfinity NegInfinity = True"
| "js_ge (Finite a) NegInfinity = True"
| "js_ge NegInfinity NegInfinity = True"
| "js_ge _ _ = False"

text \<open>Truthiness of a number: \<open>0\<close> and \<open>NaN\<close> are falsy.\<close>

definition number_truthy :: "jsnumber \<Rightarrow> bool" where
  "number_truthy x = (x \<noteq> NaN \<and> x \<noteq> Finite 0)"

text \<open>
  \<open>Number(ethers.formatUnits(v, d))\<close>: \<open>formatUnits\<close> writes the exact decimal
  expansion of \<open>v / 10^d\<close>, which \<open>Number\<close> rounds to the nearest double (as V8
  does for a text of any length).
\<close>

definition Number_formatUnits :: "nat \<Rightarrow> nat \<Rightarrow> jsnumber" where
  "Number_formatUnits v d = to_double (of_nat v / 10 ^ d)"

definition Number_formatEther :: "nat \<Rightarrow> jsnumber" where
  "Number_formatEther v = Number_formatUnits v 18"

section \<open>What the handlers emit\<close>

text \<open>
  The calls a handler makes to the outside, in the order it makes them. A message to a
  subscriber carries the event it reports (address and amount) beside its text; an alert
  carries what its text is built from.
\<close>

datatype action =
    KeyRecorded jsstring
  | MetadataFetched address nat
  | MessageSent uid address nat jsstring
  | AlertSent uid address jsnumber int language jsstring

section \<open>Deployment events\<close>

text \<open>
  The six calls of one event: \<open>None\<close> is a rejected promise (a revert, a timeout, a
  result that does not decode).
\<close>

record metadata_calls =
  description_call :: "jsstring option"
  website_call :: "jsstring option"
  telegram_call :: "jsstring option"
  twitter_call :: "jsstring option"
  symbol_call :: "jsstring option"
  decimals_call :: "nat option"

text \<open>\<open>.catch(() => '')\<close> on a call that returns a string.\<close>

definition catch_empty :: "jsstring option \<Rightarrow> jsstring" where
  "catch_empty r = (case r of None \<Rightarrow> [] | Some v \<Rightarrow> v)"

definition toText :: "jsstring \<Rightarrow> jsstring" where
  "toText v = (if v \<noteq> [] \<and> length (trim v) > 0 then v else unset)"

text \<open>
  \<open>decimalsRaw\<close> is the bigint the call returned or the \<open>''\<close> of its catch; only the
  latter fails the test \<open>decimalsRaw !== ''\<close>.
\<close>

definition decimalsText_of :: "nat option \<Rightarrow> jsstring" where
  "decimalsText_of r = (case r of None \<Rightarrow> unset | Some d \<Rightarrow> dec d)"

record enriched =
  symbolText :: jsstring
  decimalsText :: jsstring
  web :: jsstring
  tg :: jsstring
  tw :: jsstring
  desc :: jsstring

definition enrich :: "metadata_calls \<Rightarrow> enriched" where
  "enrich c =
     (let descRaw = catch_empty (description_call c);
          webRaw = catch_empty (website_call c);
          tgRaw = catch_empty (telegram_call c);
          twRaw = catch_empty (twitter_call c);
          symbolRaw = catch_empty (symbol_call c)
      in \<lparr> symbolText = toText symbolRaw,
           decimalsText = decimalsText_of (decimals_call c),
           web = toText webRaw, tg = toText tgRaw, tw = toText twRaw,
           desc = toText descRaw \<rparr>)"

definition hasMedia :: "enriched \<Rightarrow> bool" where
  "hasMedia e = list_ex (\<lambda>v. v \<noteq> [] \<and> v \<noteq> unset) [web e, tg e, tw e]"

definition rocket :: jsstring where
  "rocket = [0xD83D, 0xDE80]"

definition message_lines :: "language \<Rightarrow> address \<Rightarrow> nat \<Rightarrow> enriched \<Rightarrow> jsstring list" where
  "message_lines l addr amount e =
     (case l of
        Zh \<Rightarrow>
          [ rocket @ lit '' <b>'' @ [0x65B0] @ lit '' PumpToken '' @ [0x4E0A, 0x7EBF] @ lit ''</b>'',
            [0x5408, 0x7EA6] @ lit '': <code>'' @ addr @ lit ''</code>'',
            [0x540D, 0x79F0] @ lit '': '' @ symbolText e,
            [0x5C0F, 0x6570] @ lit '': '' @ decimalsText e,
            lit ''Dev '' @ [0x4E70, 0x5165] @ lit '': <b>'' @ formatEther amount @ lit '' OKB</b>'',
            [0x7B80, 0x4ECB] @ lit '': '' @ desc e,
            [0x5B98, 0x7F51] @ lit '': '' @ web e,
            lit ''TG: '' @ tg e,
            lit ''Twitter: '' @ tw e ]
      | En \<Rightarrow>
          [ rocket @ lit '' <b>New PumpToken Deployed</b>'',
            lit ''Contract: <code>'' @ addr @ lit ''</code>'',
            lit ''Symbol: '' @ symbolText e,
            lit ''Decimals: '' @ decimalsText e,
            lit ''Dev Buy: <b>'' @ formatEther amount @ lit '' OKB</b>'',
            lit ''Description: '' @ desc e,
            lit ''Website: '' @ web e,
            lit ''TG: '' @ tg e,
            lit ''Twitter: '' @ tw e ])"

definition message_text :: "language \<Rightarrow> address \<Rightarrow> nat \<Rightarrow> enriched \<Rightarrow> jsstring" where
  "message_text l addr amount e = join (lit [CHR 0x0A]) (message_lines l addr amount e)"

text \<open>
  One log of a batch handled with nothing else running while the listener waits: what
  \<open>parseLog\<close> gives (\<open>None\<close> when it throws or finds no event), the outcomes of
  the six calls for the token, and for each subscriber whether \<open>sendMessage\<close>
  resolves.
\<close>

record log_entry =
  parseLog :: "(address \<times> nat) option"
  calls :: metadata_calls
  sendMessage_ok :: "uid \<Rightarrow> bool"

definition dedup_key :: "address \<Rightarrow> nat \<Rightarrow> jsstring" where
  "dedup_key addr amount = addr @ lit '':'' @ dec amount"

text \<open>
  The body of the loop over the subscribers. A rejected \<open>sendMessage\<close> is caught by the
  \<open>try\<close> around the body, which skips the enrolment after it.
\<close>

definition push_to_user ::
  "address \<Rightarrow> nat \<Rightarrow> enriched \<Rightarrow> (uid \<Rightarrow> bool) \<Rightarrow> int \<Rightarrow> uid \<Rightarrow> state \<Rightarrow> state \<times> action list" where
  "push_to_user addr amount e send_ok now userId s =
     (let (p, m1) = getPrefs userId (userPushPrefs s);
          s1 = s\<lparr>userPushPrefs := m1\<rparr>
      in if requireMediaLink p \<and> \<not> hasMedia e then (s1, [])
         else (let sent = [MessageSent userId addr amount (message_text (lang p) addr amount e)]
               in if send_ok userId \<and> threshold_truthy (mcUsdThreshold p)
                  then (s1\<lparr>marketCapAlerts :=
                              addToMarketCapAlerts addr userId now (marketCapAlerts s1)\<rparr>, sent)
                  else (s1, sent)))"

fun fanout ::
  "address \<Rightarrow> nat \<Rightarrow> enriched \<Rightarrow> (uid \<Rightarrow> bool) \<Rightarrow> int \<Rightarrow> uid list \<Rightarrow> state \<Rightarrow> state \<times> action list" where
  "fanout addr amount e send_ok now [] s = (s, [])"
| "fanout addr amount e send_ok now (userId # rest) s =
     (let (s1, a1) = push_to_user addr amount e send_ok now userId s;
          (s2, a2) = fanout addr amount e send_ok now rest s1
      in (s2, a1 @ a2))"

definition process_log :: "int \<Rightarrow> log_entry \<Rightarrow> state \<Rightarrow> state \<times> action list" where
  "process_log now l s =
     (case parseLog l of
        None \<Rightarrow> (s, [])
      | Some (addr, amount) \<Rightarrow>
          (let k = dedup_key addr amount
           in if set_has (sentKeys s) k then (s, [])
              else (let s1 = s\<lparr>sentKeys := set_add k (sentKeys s)\<rparr>;
                        e = enrich (calls l);
                        (s2, sends) = fanout addr amount e (sendMessage_ok l) now
                                        (subscribedUsers s1) s1
                    in (s2, KeyRecorded k # MetadataFetched addr amount # sends))))"

section \<open>The block listener, from await to await\<close>

text \<open>
  The listener of the block signal is an async function. It runs until its next
  \<open>await\<close>; while it waits, other handlers run, the listener of a later block among
  them, and each sees and writes the same variables. A cycle is a task: its range, the
  locals \<open>from\<close> and \<open>to\<close>, and the place it stands at with the other locals it
  goes on with.

  \<^item> \<open>AwaitLogs\<close>: at \<open>await provider.getLogs\<close> for the range;
  \<^item> \<open>AwaitMetadata rest addr amount\<close>: at \<open>await Promise.all\<close> for the event
    \<open>(addr, amount)\<close>, with \<open>rest\<close> the logs of the batch after it;
  \<^item> \<open>AwaitSend rest addr amount e i uid\<close>: at \<open>await bot.telegram.sendMessage\<close>
    for the subscriber \<open>uid\<close>, the member at position \<open>i\<close> of the set the loop
    iterates;
  \<^item> \<open>Done\<close>: ended after \<open>lastProcessed = to\<close>;
  \<^item> \<open>Failed\<close>: ended in the outer \<open>catch\<close>, the query rejected.

  A log of the batch is what \<open>parseLog\<close> gives for it, \<open>None\<close> when it throws or
  finds no event.
\<close>

type_synonym parsed_log = "(address \<times> nat) option"

datatype stage =
    AwaitLogs
  | AwaitMetadata "parsed_log list" address nat
  | AwaitSend "parsed_log list" address nat enriched nat uid
  | Done
  | Failed

record task =
  fromBlock :: int
  toBlock :: int
  stage :: stage

text \<open>
  The loop over the logs up to its next \<open>await\<close>: a log that does not parse is skipped
  by the inner \<open>catch\<close>, a log whose key is in the dedup set by \<open>continue\<close>; the
  first other log is the next event, and the logs after it wait their turn.
\<close>

fun next_event :: "jsstring list \<Rightarrow> parsed_log list \<Rightarrow> (address \<times> nat \<times> parsed_log list) option" where
  "next_event keys [] = None"
| "next_event keys (None # rest) = next_event keys rest"
| "next_event keys (Some (addr, amount) # rest) =
     (if set_has keys (dedup_key addr amount) then next_event keys rest
      else Some (addr, amount, rest))"

text \<open>
  For the next event the key is added and the six calls are issued, and the listener
  waits for them. With no event left it stores the height and ends.
\<close>

definition next_log :: "int \<Rightarrow> parsed_log list \<Rightarrow> state \<Rightarrow> state \<times> stage \<times> action list" where
  "next_log to_block logs s =
     (case next_event (sentKeys s) logs of
        None \<Rightarrow> (s\<lparr>lastProcessed := to_block\<rparr>, Done, [])
      | Some (addr, amount, rest) \<Rightarrow>
          (s\<lparr>sentKeys := set_add (dedup_key addr amount) (sentKeys s)\<rparr>,
           AwaitMetadata rest addr amount,
           [KeyRecorded (dedup_key addr amount), MetadataFetched addr amount]))"

text \<open>
  The loop over the subscribers up to its next \<open>await\<close>. The iterator of a \<open>Set\<close>
  is live: it visits the members in insertion order by position, those added while the
  loop waits included. \<open>subscribedUsers\<close> is only ever added to, so a position
  names the same member for good. \<open>us\<close> is the part of the set from position \<open>i\<close>
  on; the result is the position, id and language of the first subscriber the filter lets
  through.
\<close>

fun next_recipient ::
  "enriched \<Rightarrow> nat \<Rightarrow> uid list \<Rightarrow> (uid \<rightharpoonup> prefs) \<Rightarrow> (nat \<times> uid \<times> language) option \<times> (uid \<rightharpoonup> prefs)" where
  "next_recipient e i [] m = (None, m)"
| "next_recipient e i (userId # us) m =
     (let (p, m1) = getPrefs userId m
      in if requireMediaLink p \<and> \<not> hasMedia e then next_recipient e (Suc i) us m1
         else (Some (i, userId, lang p), m1))"

text \<open>
  To the subscriber found the message is sent, and the listener waits for the send. With
  no subscriber left the loop over the logs goes on.
\<close>

definition next_user ::
  "int \<Rightarrow> parsed_log list \<Rightarrow> address \<Rightarrow> nat \<Rightarrow> enriched \<Rightarrow> nat \<Rightarrow> state \<Rightarrow> state \<times> stage \<times> action list" where
  "next_user to_block rest addr amount e i s =
     (case next_recipient e i (drop i (subscribedUsers s)) (userPushPrefs s) of
        (None, m) \<Rightarrow> next_log to_block rest (s\<lparr>userPushPrefs := m\<rparr>)
      | (Some (j, userId, l), m) \<Rightarrow>
          (s\<lparr>userPushPrefs := m\<rparr>,
           AwaitSend rest addr amount e j userId,
           [MessageSent userId addr amount (message_text l addr amount e)]))"

text \<open>
  The listener from the signal to \<open>await provider.getLogs\<close>: the task it becomes, or
  \<open>None\<close> when it returns at \<open>if (from > to)\<close>.
\<close>

definition block_signal :: "int \<Rightarrow> state \<Rightarrow> state \<times> task option" where
  "block_signal bn s =
     (let s1 = (if lastProcessed s = 0 then s\<lparr>lastProcessed := bn - 1\<rparr> else s);
          from_block = lastProcessed s1 + 1;
          to_block = bn
      in if from_block > to_block then (s1, None)
         else (s1, Some \<lparr> fromBlock = from_block, toBlock = to_block, stage = AwaitLogs \<rparr>))"

text \<open>
  What a task waits for comes from outside: the logs of the range, or the rejection of
  the query; the outcomes of the six calls (\<open>Promise.all\<close> over calls that each catch
  their own rejection never rejects); whether \<open>sendMessage\<close> resolved, with the clock
  at that moment.
\<close>

datatype settled =
    LogsSettled "parsed_log list option"
  | MetadataSettled metadata_calls
  | SendSettled bool int

text \<open>
  \<open>prefs\<close>, read before the send, is the object the map holds for the subscriber, and
  the map never replaces or drops an object. The test of \<open>prefs.mcUsdThreshold\<close> after
  the send reads that object as it is by then.
\<close>

definition prefs_object :: "uid \<Rightarrow> state \<Rightarrow> prefs" where
  "prefs_object userId s = (case userPushPrefs s userId of None \<Rightarrow> default_prefs | Some p \<Rightarrow> p)"

text \<open>
  The listener from one \<open>await\<close> to the next, \<open>None\<close> when the task does not wait
  for what has settled. A rejected \<open>sendMessage\<close> is caught by the \<open>try\<close> around the
  body of the loop, which skips the enrolment.
\<close>

fun resume :: "int \<Rightarrow> stage \<Rightarrow> settled \<Rightarrow> state \<Rightarrow> (state \<times> stage \<times> action list) option" where
  "resume to_block AwaitLogs (LogsSettled None) s = Some (s, Failed, [])"
| "resume to_block AwaitLogs (LogsSettled (Some logs)) s = Some (next_log to_block logs s)"
| "resume to_block (AwaitMetadata rest addr amount) (MetadataSettled c) s =
     Some (next_user to_block rest addr amount (enrich c) 0 s)"
| "resume to_block (AwaitSend rest addr amount e i userId) (SendSettled ok now) s =
     Some (next_user to_block rest addr amount e (Suc i)
            (if ok \<and> threshold_truthy (mcUsdThreshold (prefs_object userId s))
             then s\<lparr>marketCapAlerts := addToMarketCapAlerts addr userId now (marketCapAlerts s)\<rparr>
             else s))"
| "resume to_block _ _ s = None"

section \<open>The market-cap check\<close>

definition WOKB_ADDR :: address where
  "WOKB_ADDR = lit ''0xe538905cf8410324e03a5a23c1c177a474d59b2b''"

text \<open>
  The calls made for one token of the registry in one check, \<open>None\<close> where the call
  is rejected. Nothing follows \<open>sendMessage\<close> in the loop over the users, so whether
  it resolves (\<open>alert_send_ok\<close>) changes nothing.
\<close>

record token_calls =
  totalSupply_call :: "nat option"
  token_decimals_call :: "nat option"
  getReserves_call :: "(nat \<times> nat) option"
  token0_call :: "address option"
  token1_call :: "address option"
  token_symbol_call :: "jsstring option"
  alert_send_ok :: "uid \<Rightarrow> bool"

text \<open>
  The price from the pool: \<open>None\<close> is the \<open>null\<close> the variable starts with, and
  also the exception of a rejected pool call, which skips the token as \<open>null\<close> does.
\<close>

definition priceInWOKB :: "token_calls \<Rightarrow> jsnumber option" where
  "priceInWOKB c =
     (case getReserves_call c of
        None \<Rightarrow> None
      | Some (reserve0, reserve1) \<Rightarrow>
          (case token0_call c of
             None \<Rightarrow> None
           | Some token0 \<Rightarrow>
               (case token1_call c of
                  None \<Rightarrow> None
                | Some token1 \<Rightarrow>
                    if toLowerCase token0 = toLowerCase WOKB_ADDR
                    then (if reserve1 > 0
                          then Some (js_div (Number_formatEther reserve0) (Number_formatEther reserve1))
                          else None)
                    else if toLowerCase token1 = toLowerCase WOKB_ADDR
                    then (if reserve0 > 0
                          then Some (js_div (Number_formatEther reserve1) (Number_formatEther reserve0))
                          else None)
                    else None)))"

text \<open>
  The market cap of a token, \<open>None\<close> when the loop goes on to the next token before
  it has one: no price, or a price that is falsy, or an exception. \<open>formatUnits\<close> of
  ethers 6 throws when asked for more than 80 decimals, which the \<open>try\<close> around the
  token catches.
\<close>

definition marketCapUSD :: "token_calls \<Rightarrow> jsnumber option" where
  "marketCapUSD c =
     (let totalSupply = (case totalSupply_call c of None \<Rightarrow> 0 | Some v \<Rightarrow> v);
          decimals = (case token_decimals_call c of None \<Rightarrow> 18 | Some d \<Rightarrow> d)
      in case priceInWOKB c of
           None \<Rightarrow> None
         | Some price \<Rightarrow>
             if \<not> number_truthy price then None
             else if 80 < decimals then None
             else Some (js_mul (Number_formatUnits totalSupply decimals) price))"

definition alert_user ::
  "address \<Rightarrow> token_calls \<Rightarrow> jsnumber \<Rightarrow> uid \<Rightarrow> (uid \<rightharpoonup> prefs) \<Rightarrow> (uid \<rightharpoonup> prefs) \<times> action list" where
  "alert_user tokenAddr c cap userId m =
     (let (p, m1) = getPrefs userId m
      in case mcUsdThreshold p of
           None \<Rightarrow> (m1, [])
         | Some th \<Rightarrow>
             if th \<noteq> 0 \<and> js_ge cap (Finite (of_int th))
             then (m1, [AlertSent userId tokenAddr cap th (lang p)
                          (case token_symbol_call c of None \<Rightarrow> lit ''Unknown'' | Some sy \<Rightarrow> sy)])
             else (m1, []))"

fun alert_users ::
  "address \<Rightarrow> token_calls \<Rightarrow> jsnumber \<Rightarrow> uid list \<Rightarrow> (uid \<rightharpoonup> prefs) \<Rightarrow> (uid \<rightharpoonup> prefs) \<times> action list" where
  "alert_users tokenAddr c cap [] m = (m, [])"
| "alert_users tokenAddr c cap (userId # rest) m =
     (let (m1, a1) = alert_user tokenAddr c cap userId m;
          (m2, a2) = alert_users tokenAddr c cap rest m1
      in (m2, a1 @ a2))"

fun check_tokens ::
  "(address \<Rightarrow> token_calls) \<Rightarrow> registry \<Rightarrow> (uid \<rightharpoonup> prefs) \<Rightarrow> (uid \<rightharpoonup> prefs) \<times> action list" where
  "check_tokens env [] m = (m, [])"
| "check_tokens env ((tokenAddr, alertData) # rest) m =
     (case marketCapUSD (env tokenAddr) of
        None \<Rightarrow> check_tokens env rest m
      | Some cap \<Rightarrow>
          (let (m1, a1) = alert_users tokenAddr (env tokenAddr) cap (users alertData) m;
               (m2, a2) = check_tokens env rest m1
           in (m2, a1 @ a2)))"

definition checkMarketCapAlerts :: "int \<Rightarrow> (address \<Rightarrow> token_calls) \<Rightarrow> state \<Rightarrow> state \<times> action list" where
  "checkMarketCapAlerts now env s =
     (if now - lastMcCheck s < MC_CHECK_INTERVAL then (s, [])
      else (let s1 = s\<lparr>lastMcCheck := now\<rparr>;
                (m, acts) = check_tokens env (marketCapAlerts s1) (userPushPrefs s1)
            in (s1\<lparr>userPushPrefs := m\<rparr>, acts)))"

text \<open>A run of checks, one after the other: what each of them emits.\<close>

fun run_checks :: "(int \<times> (address \<Rightarrow> token_calls)) list \<Rightarrow> state \<Rightarrow> action list list" where
  "run_checks [] s = []"
| "run_checks ((now, env) # rest) s =
     (let (s1, acts) = checkMarketCapAlerts now env s in acts # run_checks rest s1)"

text \<open>
  The times of a run of checks, each at least the interval after the one before it (the
  first after the time of the last real check).
\<close>

fun spaced :: "int \<Rightarrow> int list \<Rightarrow> bool" where
  "spaced t [] = True"
| "spaced t (now # rest) = (\<not> now - t < MC_CHECK_INTERVAL \<and> spaced now rest)"

section \<open>Commands and callbacks\<close>

text \<open>
  The state changes of the chat handlers; their replies are not state. \<open>data\<close> is
  \<open>ctx.callbackQuery?.data\<close>, \<open>None\<close> when it is undefined. Every callback whose data
  is not tested below only shows a menu.
\<close>

definition on_start :: "uid \<Rightarrow> state \<Rightarrow> state" where
  "on_start from_id s =
     (let s1 = s\<lparr>subscribedUsers := set_add from_id (subscribedUsers s)\<rparr>
      in s1\<lparr>userPushPrefs := snd (getPrefs from_id (userPushPrefs s1))\<rparr>)"

definition on_menu :: "uid \<Rightarrow> state \<Rightarrow> state" where
  "on_menu from_id s = s\<lparr>userPushPrefs := snd (getPrefs from_id (userPushPrefs s))\<rparr>"

definition on_lang :: "uid \<Rightarrow> language \<Rightarrow> state \<Rightarrow> state" where
  "on_lang from_id l s = s\<lparr>userPushPrefs := setLang from_id l (userPushPrefs s)\<rparr>"

definition on_callback_query :: "uid \<Rightarrow> jsstring option \<Rightarrow> state \<Rightarrow> state" where
  "on_callback_query from_id data s =
     (let (p, m1) = getPrefs from_id (userPushPrefs s);
          s1 = s\<lparr>userPushPrefs := m1\<rparr>
      in case data of
           None \<Rightarrow> s1
         | Some d \<Rightarrow>
             if d = lit ''lang_en'' then s1\<lparr>userPushPrefs := setLang from_id En m1\<rparr>
             else if d = lit ''lang_zh'' then s1\<lparr>userPushPrefs := setLang from_id Zh m1\<rparr>
             else if d = lit ''pf_media''
             then s1\<lparr>userPushPrefs :=
                       putPrefs from_id (p\<lparr>requireMediaLink := \<not> requireMediaLink p\<rparr>) m1\<rparr>
             else if d = lit ''pf_mc_clear''
             then s1\<lparr>userPushPrefs := putPrefs from_id (p\<lparr>mcUsdThreshold := None\<rparr>) m1\<rparr>
             else if take 13 d = lit ''remove_alert_''
             then s1\<lparr>marketCapAlerts :=
                       removeFromMarketCapAlerts (drop 13 d) from_id (marketCapAlerts s1)\<rparr>
             else if d = lit ''clear_all_alerts''
             then s1\<lparr>marketCapAlerts := clear_all_alerts from_id (marketCapAlerts s1)\<rparr>
             else s1)"

section \<open>The whole bot\<close>

text \<open>
  The bot at a moment between two handlers: its variables, the cycles of the block
  listener started so far, and the calls made to the outside so far.
\<close>

record config =
  globals :: state
  tasks :: "task list"
  trace :: "action list"

definition init_config :: config where
  "init_config = \<lparr> globals = init_state, tasks = [], trace = [] \<rparr>"

text \<open>
  What the event loop can run next.

  \<^item> \<open>Block bn\<close>: the provider signals block \<open>bn\<close>, and a new cycle runs to its first
    \<open>await\<close>.
  \<^item> \<open>Settled k r\<close>: what cycle \<open>k\<close> waits for settles with \<open>r\<close>, and the cycle runs
    to its next \<open>await\<close> or to its end.
  \<^item> The chat handlers. Each makes all its changes of the variables before its first
    \<open>await\<close> (what follows only builds and sends a reply), so it is one step.
  \<^item> \<open>McTimer now\<close>: the timer calls \<open>checkMarketCapAlerts\<close>, which runs to its first
    \<open>await\<close>: the throttle test and the store of the time.
  \<^item> \<open>McCheckGoesOn us alerts\<close>: a market-cap check goes on from one \<open>await\<close> to
    the next. All it does to the variables is \<open>getPrefs\<close> for the users \<open>us\<close> it
    visits, and all it sends are alerts; which users and which alerts is left open here
    (\<open>checkMarketCapAlerts\<close> above computes them for a check that runs undisturbed).
\<close>

datatype event =
    Block int
  | Settled nat settled
  | Start uid
  | Menu uid
  | LangCmd uid language
  | McStatus uid
  | CallbackQuery uid "jsstring option"
  | ReplyMessage uid jsnumber int
  | McTimer int
  | McCheckGoesOn "uid list" "action list"

definition only_alerts :: "action list \<Rightarrow> bool" where
  "only_alerts acts =
     list_all (\<lambda>x. case x of AlertSent u a cap th l sy \<Rightarrow> True | _ \<Rightarrow> False) acts"

fun step :: "event \<Rightarrow> config \<Rightarrow> config" where
  "step (Block bn) c =
     (case block_signal bn (globals c) of
        (s1, None) \<Rightarrow> c\<lparr>globals := s1\<rparr>
      | (s1, Some t) \<Rightarrow> c\<lparr>globals := s1, tasks := tasks c @ [t]\<rparr>)"
| "step (Settled k r) c =
     (if k < length (tasks c)
      then (case resume (toBlock (tasks c ! k)) (stage (tasks c ! k)) r (globals c) of
              None \<Rightarrow> c
            | Some (s1, st, acts) \<Rightarrow>
                c\<lparr>globals := s1, tasks := (tasks c)[k := (tasks c ! k)\<lparr>stage := st\<rparr>],
                  trace := trace c @ acts\<rparr>)
      else c)"
| "step (Start i) c = c\<lparr>globals := on_start i (globals c)\<rparr>"
| "step (Menu i) c = c\<lparr>globals := on_menu i (globals c)\<rparr>"
| "step (LangCmd i l) c = c\<lparr>globals := on_lang i l (globals c)\<rparr>"
| "step (McStatus i) c = c\<lparr>globals := on_menu i (globals c)\<rparr>"
| "step (CallbackQuery i data) c = c\<lparr>globals := on_callback_query i data (globals c)\<rparr>"
| "step (ReplyMessage i n now) c = c\<lparr>globals := fst (on_message i n now (globals c))\<rparr>"
| "step (McTimer now) c =
     (if now - lastMcCheck (globals c) < MC_CHECK_INTERVAL then c
      else c\<lparr>globals := (globals c)\<lparr>lastMcCheck := now\<rparr>\<rparr>)"
| "step (McCheckGoesOn us alerts) c =
     (if only_alerts alerts
      then c\<lparr>globals := (globals c)\<lparr>userPushPrefs :=
                 fold (\<lambda>userId m. snd (getPrefs userId m)) us (userPushPrefs (globals c))\<rparr>,
             trace := trace c @ alerts\<rparr>
      else c)"

text \<open>A run: the steps of a schedule, one after the other.\<close>

fun run :: "event list \<Rightarrow> config \<Rightarrow> config" where
  "run [] c = c"
| "run (ev # rest) c = run rest (step ev c)"

section \<open>Reading a trace\<close>

fun is_message_to :: "uid \<Rightarrow> address \<Rightarrow> nat \<Rightarrow> action \<Rightarrow> bool" where
  "is_message_to u a n (MessageSent u' a' n' txt) = (u' = u \<and> a' = a \<and> n' = n)"
| "is_message_to u a n _ = False"

definition messages_to :: "uid \<Rightarrow> address \<Rightarrow> nat \<Rightarrow> action list \<Rightarrow> nat" where
  "messages_to u a n tr = length (filter (is_message_to u a n) tr)"

fun is_alert_to :: "uid \<Rightarrow> address \<Rightarrow> action \<Rightarrow> bool" where
  "is_alert_to u a (AlertSent u' a' cap th l sy) = (u' = u \<and> a' = a)"
| "is_alert_to u a _ = False"

text \<open>
  The key an action works for: a fetch or a message for an event must find the key of
  the event already recorded.
\<close>

fun uses_key :: "action \<Rightarrow> jsstring option" where
  "uses_key (MetadataFetched a n) = Some (dedup_key a n)"
| "uses_key (MessageSent u a n txt) = Some (dedup_key a n)"
| "uses_key _ = None"

text \<open>A string \<open>toText\<close> renders as unset: empty, or white space only.\<close>

definition blank :: "jsstring \<Rightarrow> bool" where
  "blank v = list_all isWhiteSpace v"

text \<open>
  A cycle in which the market cap computed for the token is at or above the threshold.
\<close>

definition cap_reaches :: "address \<Rightarrow> int \<Rightarrow> (int \<times> (address \<Rightarrow> token_calls)) \<Rightarrow> bool" where
  "cap_reaches t th cyc =
     (case marketCapUSD (snd cyc t) of None \<Rightarrow> False | Some cap \<Rightarrow> js_ge cap (Finite (of_int th)))"

text \<open>
  The pool of the spec's example: the reference asset in the \<open>token0\<close> slot (its address
  in another letter case), reserves 1000 and 500, supply 10000 with 0 decimals.
\<close>

definition example_pool :: token_calls where
  "example_pool =
     \<lparr> totalSupply_call = Some 10000,
       token_decimals_call = Some 0,
       getReserves_call = Some (1000, 500),
       token0_call = Some (lit ''0xE538905cF8410324e03A5a23C1c177a474D59b2B''),
       token1_call = Some (lit ''0x00000000000000000000000000000000000000A1''),
       token_symbol_call = Some (lit ''TKN''),
       alert_send_ok = (\<lambda>u. True) \<rparr>"

text \<open>
  The keys a trace records, in order, and the test that every fetch and every message of
  a trace comes after the record of its key (\<open>K\<close> holds the keys recorded before the
  trace starts).
\<close>

fun recorded_keys :: "action list \<Rightarrow> jsstring list" where
  "recorded_keys [] = []"
| "recorded_keys (KeyRecorded k # tr) = k # recorded_keys tr"
| "recorded_keys (a # tr) = recorded_keys tr"

fun keys_first :: "jsstring set \<Rightarrow> action list \<Rightarrow> bool" where
  "keys_first K [] = True"
| "keys_first K (KeyRecorded k # tr) = keys_first (insert k K) tr"
| "keys_first K (a # tr) =
     ((case uses_key a of None \<Rightarrow> True | Some k \<Rightarrow> k \<in> K) \<and> keys_first K tr)"







text \<open>
  A cycle driven to its end with nothing else running: whatever it waits for settles as
  \<open>meta\<close> and \<open>ok\<close> say, at most \<open>fuel\<close> times.
\<close>

fun answer ::
  "(address \<Rightarrow> nat \<Rightarrow> metadata_calls) \<Rightarrow> (uid \<Rightarrow> address \<Rightarrow> nat \<Rightarrow> bool) \<Rightarrow> int \<Rightarrow> stage \<Rightarrow> settled option" where
  "answer meta ok now (AwaitMetadata rest addr amount) = Some (MetadataSettled (meta addr amount))"
| "answer meta ok now (AwaitSend rest addr amount e i userId) =
     Some (SendSettled (ok userId addr amount) now)"
| "answer meta ok now _ = None"

fun run_to_end ::
  "nat \<Rightarrow> nat \<Rightarrow> (address \<Rightarrow> nat \<Rightarrow> metadata_calls) \<Rightarrow> (uid \<Rightarrow> address \<Rightarrow> nat \<Rightarrow> bool) \<Rightarrow> int \<Rightarrow> config \<Rightarrow> config" where
  "run_to_end 0 k meta ok now c = c"
| "run_to_end (Suc fuel) k meta ok now c =
     (case answer meta ok now (stage (tasks c ! k)) of
        None \<Rightarrow> c
      | Some r \<Rightarrow> run_to_end fuel k meta ok now (step (Settled k r) c))"

text \<open>
  A run in which two cycles overlap and fetch the same log. One subscriber; the signals of
  blocks 100 and 101 arrive before any query is answered, so both cycles ask from block
  100 on. The later cycle is answered first and runs to its end; the earlier one is
  answered after that.
\<close>

definition no_metadata :: metadata_calls where
  "no_metadata = \<lparr> description_call = None, website_call = None, telegram_call = None,
                   twitter_call = None, symbol_call = None, decimals_call = None \<rparr>"

definition example_signals :: "event list" where
  "example_signals = [Start 7, Block 100, Block 101]"

definition example_later_cycle :: "event list" where
  "example_later_cycle =
     [Settled 1 (LogsSettled (Some [Some (lit ''0xA'', 5)])),
      Settled 1 (MetadataSettled no_metadata),
      Settled 1 (SendSettled True 0)]"

definition example_run :: "event list" where
  "example_run =
     example_signals @ example_later_cycle @ [Settled 0 (LogsSettled (Some [Some (lit ''0xA'', 5)]))]"




section \<open>What stays true along a run\<close>

text \<open>
  The event a cycle has in hand, and how many members of the subscriber set its loop has
  passed: none while it waits for the calls, those up to and including the one it is
  sending to while it waits for a send.
\<close>

fun current_event :: "stage \<Rightarrow> (address \<times> nat \<times> nat) option" where
  "current_event (AwaitMetadata rest addr amount) = Some (addr, amount, 0)"
| "current_event (AwaitSend rest addr amount e i userId) = Some (addr, amount, Suc i)"
| "current_event _ = None"

text \<open>
  The dedup discipline, for the dedup set \<open>K\<close>, the subscribers \<open>U\<close>, the trace and the
  stages of the cycles: the subscribers are a set; the dedup set is exactly the keys
  recorded, each once; no fetch or message comes before its key; no subscriber has two
  messages for one event; the key of the event a cycle has in hand is in the set, and the
  messages under that key are for that event and went to subscribers its loop has passed;
  and no two cycles have events with the same key in hand.
\<close>

definition dedup_inv :: "jsstring list \<Rightarrow> uid list \<Rightarrow> action list \<Rightarrow> stage list \<Rightarrow> bool" where
  "dedup_inv K U tr sts =
     (distinct U
      \<and> set K = set (recorded_keys tr)
      \<and> distinct (recorded_keys tr)
      \<and> keys_first {} tr
      \<and> (\<forall>u a n. messages_to u a n tr \<le> 1)
      \<and> (\<forall>k a n b. k < length sts \<and> current_event (sts ! k) = Some (a, n, b) \<longrightarrow>
            dedup_key a n \<in> set K \<and> b \<le> length U
            \<and> (\<forall>u a' n' txt. MessageSent u a' n' txt \<in> set tr \<and> dedup_key a' n' = dedup_key a n
                  \<longrightarrow> a' = a \<and> n' = n \<and> u \<in> set (take b U)))
      \<and> (\<forall>k k' a n b a' n' b'. k < length sts \<and> k' < length sts \<and> k \<noteq> k'
            \<and> current_event (sts ! k) = Some (a, n, b)
            \<and> current_event (sts ! k') = Some (a', n', b') \<longrightarrow> dedup_key a n \<noteq> dedup_key a' n'))"

definition dedup_ok :: "config \<Rightarrow> bool" where
  "dedup_ok c = dedup_inv (sentKeys (globals c)) (subscribedUsers (globals c)) (trace c)
                  (map stage (tasks c))"



section \<open>The alert registry: lookups after each operation\<close>

lemma map_of_map_set:
  "map_of (map_set k v m) k' = (if k' = k then Some v else map_of m k')"
proof (cases "map_has m k")
  case True
  have "map_of (map (\<lambda>(a, b). if a = k then (a, v) else (a, b)) m) k'
        = (if k' = k then (if map_of m k = None then None else Some v) else map_of m k')"
    by (induction m) auto
  with True show ?thesis by (auto simp: map_set_def map_has_def)
next
  case False
  then show ?thesis by (auto simp: map_set_def map_has_def map_add_def split: option.splits)
qed

lemma map_of_map_delete:
  "map_of (map_delete k m) k' = (if k' = k then None else map_of m k')"
  unfolding map_delete_def by (induction m) auto

lemma keys_map_set:
  "map fst (map_set k v m) = (if map_has m k then map fst m else map fst m @ [k])"
proof -
  have "map fst (map (\<lambda>(a, b). if a = k then (a, v) else (a, b)) m) = map fst m"
    by (induction m) auto
  then show ?thesis by (simp add: map_set_def)
qed

lemma distinct_keys_map_set:
  "distinct (map fst m) \<Longrightarrow> distinct (map fst (map_set k v m))"
  by (auto simp: keys_map_set map_has_def map_of_eq_None_iff)

lemma distinct_keys_map_delete:
  "distinct (map fst m) \<Longrightarrow> distinct (map fst (map_delete k m))"
  unfolding map_delete_def by (induction m) auto

lemma map_of_addToMarketCapAlerts:
  "map_of (addToMarketCapAlerts t u now reg) t' =
     (if t' = t
      then Some (case map_of reg t of
                   None \<Rightarrow> \<lparr> lastPushed = now, users = [u] \<rparr>
                 | Some d \<Rightarrow> d\<lparr>users := set_add u (users d)\<rparr>)
      else map_of reg t')"
  by (simp add: addToMarketCapAlerts_def Let_def map_has_def map_of_map_set set_add_def
           split: option.splits)

lemma map_of_removeFromMarketCapAlerts:
  "map_of (removeFromMarketCapAlerts t u reg) t' =
     (if t' = t
      then (case map_of reg t of
              None \<Rightarrow> None
            | Some d \<Rightarrow> if set_delete u (users d) = [] then None
                        else Some (d\<lparr>users := set_delete u (users d)\<rparr>))
      else map_of reg t')"
  by (simp add: removeFromMarketCapAlerts_def Let_def map_of_map_set map_of_map_delete
           split: option.splits)

lemma keys_clear_all_alerts: "set (map fst (clear_all_alerts u reg)) \<subseteq> set (map fst reg)"
  by (induction u reg rule: clear_all_alerts.induct) (auto simp: Let_def)

lemma distinct_keys_clear_all_alerts:
  "distinct (map fst reg) \<Longrightarrow> distinct (map fst (clear_all_alerts u reg))"
proof (induction u reg rule: clear_all_alerts.induct)
  case (1 u)
  then show ?case by simp
next
  case (2 u t d rest)
  then show ?case using keys_clear_all_alerts [of u rest] by (auto simp: Let_def)
qed

lemma map_of_clear_all_alerts:
  "distinct (map fst reg) \<Longrightarrow>
   map_of (clear_all_alerts u reg) t =
     (case map_of reg t of
        None \<Rightarrow> None
      | Some d \<Rightarrow> if set_delete u (users d) = [] then None
                  else Some (d\<lparr>users := set_delete u (users d)\<rparr>))"
proof (induction u reg rule: clear_all_alerts.induct)
  case (1 u)
  then show ?case by simp
next
  case (2 u t' d rest)
  have "map_of rest t' = None" using 2 by (simp add: map_of_eq_None_iff)
  then show ?case using 2 by (auto simp: Let_def split: option.splits)
qed

lemma set_delete_eq_Nil: "(set_delete u us = []) = (set us \<subseteq> {u})"
  by (auto simp: set_delete_def filter_empty_conv)

lemma set_set_delete: "set (set_delete u us) = set us - {u}"
  by (auto simp: set_delete_def)

lemma set_set_add: "set (set_add u us) = insert u (set us)"
  by (auto simp: set_add_def)

lemma entry_exists_addTo:
  "entry_exists (addToMarketCapAlerts t u now reg) t' = (t' = t \<or> entry_exists reg t')"
  by (simp add: entry_exists_def map_has_def map_of_addToMarketCapAlerts)

lemma subscribers_addTo:
  "subscribers (addToMarketCapAlerts t u now reg) t' =
     (if t' = t then insert u (subscribers reg t) else subscribers reg t')"
  by (auto simp: subscribers_def map_of_addToMarketCapAlerts set_set_add split: option.splits)

lemma entry_exists_removeFrom:
  "entry_exists (removeFromMarketCapAlerts t u reg) t' =
     (if t' = t then entry_exists reg t \<and> \<not> subscribers reg t \<subseteq> {u} else entry_exists reg t')"
  by (auto simp: entry_exists_def map_has_def subscribers_def map_of_removeFromMarketCapAlerts
        set_delete_eq_Nil split: option.splits)

lemma subscribers_removeFrom:
  "subscribers (removeFromMarketCapAlerts t u reg) t' =
     (if t' = t then subscribers reg t - {u} else subscribers reg t')"
  by (auto simp: subscribers_def map_of_removeFromMarketCapAlerts set_delete_eq_Nil
        set_set_delete split: option.splits)

lemma entry_exists_clear_all:
  "distinct (map fst reg) \<Longrightarrow>
   entry_exists (clear_all_alerts u reg) t = (entry_exists reg t \<and> \<not> subscribers reg t \<subseteq> {u})"
  by (auto simp: entry_exists_def map_has_def subscribers_def map_of_clear_all_alerts
        set_delete_eq_Nil split: option.splits)

lemma subscribers_clear_all:
  "distinct (map fst reg) \<Longrightarrow> subscribers (clear_all_alerts u reg) t = subscribers reg t - {u}"
  by (auto simp: subscribers_def map_of_clear_all_alerts set_delete_eq_Nil
        set_set_delete split: option.splits)

text \<open>
  Claim C8. An entry for a token exists if and only if its subscriber set is not empty;
  enrolling (\<open>addToMarketCapAlerts\<close>), unenrolling (\<open>removeFromMarketCapAlerts\<close>)
  and clearing all alerts of a user (\<open>clear_all_alerts\<close>) keep it so, and unenrolling
  the only subscriber of a token leaves no entry for that token.
\<close>

theorem alert_registry_invariant:
  assumes wf: "distinct (map fst reg)"
    and inv: "\<forall>t. entry_exists reg t = (subscribers reg t \<noteq> {})"
  shows "(\<forall>t. entry_exists (addToMarketCapAlerts tok u now reg) t
              = (subscribers (addToMarketCapAlerts tok u now reg) t \<noteq> {}))
       \<and> (\<forall>t. entry_exists (removeFromMarketCapAlerts tok u reg) t
              = (subscribers (removeFromMarketCapAlerts tok u reg) t \<noteq> {}))
       \<and> (\<forall>t. entry_exists (clear_all_alerts u reg) t
              = (subscribers (clear_all_alerts u reg) t \<noteq> {}))
       \<and> (subscribers reg tok = {u} \<longrightarrow> \<not> entry_exists (removeFromMarketCapAlerts tok u reg) tok)"
proof -
  have a: "\<forall>t. entry_exists (addToMarketCapAlerts tok u now reg) t
              = (subscribers (addToMarketCapAlerts tok u now reg) t \<noteq> {})"
    using inv by (simp add: entry_exists_addTo subscribers_addTo)
  have b: "\<forall>t. entry_exists (removeFromMarketCapAlerts tok u reg) t
              = (subscribers (removeFromMarketCapAlerts tok u reg) t \<noteq> {})"
    using inv by (auto simp: entry_exists_removeFrom subscribers_removeFrom)
  have c: "\<forall>t. entry_exists (clear_all_alerts u reg) t
              = (subscribers (clear_all_alerts u reg) t \<noteq> {})"
    using inv wf by (auto simp: entry_exists_clear_all subscribers_clear_all)
  have d: "subscribers reg tok = {u} \<longrightarrow> \<not> entry_exists (removeFromMarketCapAlerts tok u reg) tok"
    by (simp add: entry_exists_removeFrom)
  from a b c d show ?thesis by blast
qed

theorem alert_registry_invariant_witness:
  "distinct (map fst [(lit ''0xA'', \<lparr> lastPushed = 0, users = [7] \<rparr>)])
   \<and> (\<forall>t. entry_exists [(lit ''0xA'', \<lparr> lastPushed = 0, users = [7] \<rparr>)] t
           = (subscribers [(lit ''0xA'', \<lparr> lastPushed = 0, users = [7] \<rparr>)] t \<noteq> {}))
   \<and> subscribers [(lit ''0xA'', \<lparr> lastPushed = 0, users = [7] \<rparr>)] (lit ''0xA'') = {7}
   \<and> \<not> entry_exists
         (removeFromMarketCapAlerts (lit ''0xA'') 7 [(lit ''0xA'', \<lparr> lastPushed = 0, users = [7] \<rparr>)])
         (lit ''0xA'')
   \<and> (\<forall>t. entry_exists
             (addToMarketCapAlerts (lit ''0xB'') 8 5 [(lit ''0xA'', \<lparr> lastPushed = 0, users = [7] \<rparr>)]) t
           = (subscribers
             (addToMarketCapAlerts (lit ''0xB'') 8 5 [(lit ''0xA'', \<lparr> lastPushed = 0, users = [7] \<rparr>)]) t
               \<noteq> {}))
   \<and> clear_all_alerts 7 [(lit ''0xA'', \<lparr> lastPushed = 0, users = [7] \<rparr>)] = []"
proof -
  let ?reg = "[(lit ''0xA'', \<lparr> lastPushed = 0, users = [7::int] \<rparr>)]"
  have h1: "distinct (map fst ?reg)" by simp
  have h2: "\<forall>t. entry_exists ?reg t = (subscribers ?reg t \<noteq> {})"
    by (simp add: entry_exists_def subscribers_def map_has_def)
  have h3: "subscribers ?reg (lit ''0xA'') = {7}"
    by (simp add: subscribers_def)
  have h4: "clear_all_alerts 7 ?reg = []" by (simp add: set_delete_def)
  from alert_registry_invariant [OF h1 h2, of "lit ''0xA''" 7 5]
       alert_registry_invariant [OF h1 h2, of "lit ''0xB''" 8 5] h1 h2 h3 h4
  show ?thesis by blast
qed

section \<open>Setting the threshold: what is stored and who is enrolled\<close>

lemma map_of_subscribe_existing:
  "map_of (fst (subscribe_existing u now ts reg n)) t =
     (if t \<in> set ts then map_option (\<lambda>d. d\<lparr>users := set_add u (users d)\<rparr>) (map_of reg t)
      else map_of reg t)"
proof (induction ts arbitrary: reg n)
  case Nil
  then show ?case by simp
next
  case (Cons a ts)
  show ?case
  proof (cases "map_of reg a")
    case None
    then show ?thesis using Cons.IH [of reg n] by auto
  next
    case (Some d)
    show ?thesis
    proof (cases "u \<in> set (users d)")
      case True
      then have "d\<lparr>users := set_add u (users d)\<rparr> = d" by (simp add: set_add_def)
      with Some True show ?thesis using Cons.IH [of reg n] by (auto simp: set_has_def)
    next
      case False
      with Some show ?thesis
        using Cons.IH [of "addToMarketCapAlerts a u now reg" "n + 1"]
        by (auto simp: set_has_def map_of_addToMarketCapAlerts set_add_def)
    qed
  qed
qed

lemma map_of_keys: "(t \<in> set (map fst m)) = (map_of m t \<noteq> None)"
  by (simp add: map_of_eq_None_iff)

text \<open>
  Claim C10. After a reply that sets the threshold is accepted, the user is a subscriber of
  every token that had an entry in the registry, whether or not the token was ever pushed
  to that user; no entry is created or removed and no other subscriber changes.
\<close>

theorem threshold_set_enrolls_all:
  assumes "on_message i n now s = (s', Accepted k)"
  shows "entry_exists (marketCapAlerts s') t = entry_exists (marketCapAlerts s) t
       \<and> subscribers (marketCapAlerts s') t =
           (if entry_exists (marketCapAlerts s) t
            then insert i (subscribers (marketCapAlerts s) t) else {})"
proof -
  from assms have reg: "marketCapAlerts s' =
      fst (subscribe_existing i now (map fst (marketCapAlerts s)) (marketCapAlerts s) 0)"
    by (auto simp: on_message_def Let_def split: prod.splits jsnumber.splits if_splits)
  have "map_of (marketCapAlerts s') t =
          map_option (\<lambda>d. d\<lparr>users := set_add i (users d)\<rparr>) (map_of (marketCapAlerts s) t)"
    unfolding reg map_of_subscribe_existing
    by (cases "map_of (marketCapAlerts s) t")
       (auto simp: map_of_eq_None_iff [symmetric] simp del: map_of_eq_None_iff)
  then show ?thesis
    by (auto simp: entry_exists_def map_has_def subscribers_def set_set_add split: option.splits)
qed

theorem threshold_set_enrolls_all_witness:
  "snd (on_message 8 (Finite 100) 5
          (init_state\<lparr>marketCapAlerts := [(lit ''0xA'', \<lparr> lastPushed = 0, users = [7] \<rparr>)]\<rparr>))
     = Accepted 1
   \<and> subscribers (marketCapAlerts (fst (on_message 8 (Finite 100) 5
          (init_state\<lparr>marketCapAlerts := [(lit ''0xA'', \<lparr> lastPushed = 0, users = [7] \<rparr>)]\<rparr>))))
        (lit ''0xA'') = {7, 8}"
proof -
  let ?s = "init_state\<lparr>marketCapAlerts := [(lit ''0xA'', \<lparr> lastPushed = 0, users = [7::int] \<rparr>)]\<rparr>"
  have acc: "snd (on_message 8 (Finite 100) 5 ?s) = Accepted 1"
    by (simp add: on_message_def init_state_def getPrefs_def putPrefs_def Let_def set_has_def
          addToMarketCapAlerts_def map_has_def map_set_def set_add_def)
  then have run: "on_message 8 (Finite 100) 5 ?s = (fst (on_message 8 (Finite 100) 5 ?s), Accepted 1)"
    by (metis prod.collapse)
  have "subscribers (marketCapAlerts ?s) (lit ''0xA'') = {7}"
    by (simp add: subscribers_def init_state_def)
  moreover have "entry_exists (marketCapAlerts ?s) (lit ''0xA'')"
    by (simp add: entry_exists_def map_has_def init_state_def)
  ultimately show ?thesis
    using threshold_set_enrolls_all [OF run, of "lit ''0xA''"] acc by auto
qed

text \<open>
  What the handler does with each number: anything that is not a finite number above zero
  is rejected and changes neither the stored threshold nor the registry; every other
  number \<open>r\<close> is accepted and \<open>\<lfloor>r\<rfloor>\<close> is stored.
\<close>

lemma on_message_rejected:
  assumes "on_message i n now s = (s', Rejected)"
  shows "stored_threshold s' i = stored_threshold s i \<and> marketCapAlerts s' = marketCapAlerts s"
  using assms
  by (auto simp: on_message_def Let_def getPrefs_def stored_threshold_def default_prefs_def
        split: prod.splits jsnumber.splits if_splits option.splits)

lemma on_message_rejects:
  "(snd (on_message i n now s) = Rejected) = (case n of Finite r \<Rightarrow> r \<le> 0 | _ \<Rightarrow> True)"
  by (auto simp: on_message_def Let_def split: prod.splits jsnumber.splits)

lemma on_message_accepted:
  assumes "on_message i n now s = (s', Accepted k)"
  shows "\<exists>r. n = Finite r \<and> 0 < r \<and> stored_threshold s' i = Some (floor r) \<and> 0 \<le> floor r"
  using assms
  by (auto simp: on_message_def Let_def getPrefs_def putPrefs_def stored_threshold_def
        split: prod.splits jsnumber.splits if_splits option.splits)

text \<open>
  Claim C9. The reply \<open>0.5\<close> (\<open>Number\<close> gives the double one half) passes the
  test \<open>n <= 0\<close>, so it is accepted, and \<open>Math.floor\<close> stores the threshold 0:
  not a positive integer, and a value every later truthiness test reads as unset.
\<close>

theorem threshold_half_stores_zero:
  "on_message 8 (Finite (1 / 2)) 5 init_state =
     (init_state\<lparr>userPushPrefs := [8 \<mapsto> default_prefs\<lparr>mcUsdThreshold := Some 0\<rparr>]\<rparr>, Accepted 0)
   \<and> stored_threshold (fst (on_message 8 (Finite (1 / 2)) 5 init_state)) 8 = Some 0
   \<and> \<not> threshold_truthy (stored_threshold (fst (on_message 8 (Finite (1 / 2)) 5 init_state)) 8)"
proof -
  have "\<lfloor>(1 / 2) :: rat\<rfloor> = 0" by (simp add: floor_eq_iff)
  then show ?thesis
    by (simp add: on_message_def init_state_def getPrefs_def putPrefs_def Let_def
        stored_threshold_def threshold_truthy_def)
qed

section \<open>Enrichment, field by field\<close>

lemma trim_eq_Nil: "(trim v = []) = blank v"
proof -
  have "(trim v = []) = (\<forall>x \<in> set (dropWhile isWhiteSpace v). isWhiteSpace x)"
    unfolding trim_def by (simp only: rev_is_Nil_conv dropWhile_eq_Nil_conv set_rev)
  also have "\<dots> = (dropWhile isWhiteSpace v = [])"
  proof (cases "dropWhile isWhiteSpace v")
    case Nil
    then show ?thesis by (simp del: dropWhile_eq_Nil_conv)
  next
    case (Cons x xs)
    then have "\<not> isWhiteSpace (hd (dropWhile isWhiteSpace v))"
      using hd_dropWhile [of isWhiteSpace v] by simp
    with Cons show ?thesis by auto
  qed
  also have "\<dots> = blank v"
    by (simp add: dropWhile_eq_Nil_conv blank_def list_all_iff)
  finally show ?thesis .
qed

lemma toText_blank: "toText v = (if blank v then unset else v)"
proof -
  have "blank [] " by (simp add: blank_def)
  then show ?thesis by (auto simp: toText_def trim_eq_Nil)
qed

lemma toText_not_empty: "toText v \<noteq> []"
  by (auto simp: toText_blank unset_def blank_def)

lemma hasMedia_iff:
  "hasMedia (enrich c) =
     (\<not> (web (enrich c) = unset \<and> tg (enrich c) = unset \<and> tw (enrich c) = unset))"
  by (auto simp: hasMedia_def enrich_def Let_def toText_not_empty)

text \<open>
  Claim C7 (as amended). Each of the six fields of the message depends on the outcome of
  its own call only. A rejected call gives the unset sentinel for its field; so does a
  text field whose call returned the empty string or white space only; every other
  returned value is shown as returned. Turning one call into a failure changes that
  one field to the sentinel and no other. The message lists the fields line by line.
\<close>

theorem enrich_fields_independent:
  "desc (enrich c) =
     (case description_call c of None \<Rightarrow> unset | Some v \<Rightarrow> if blank v then unset else v)
   \<and> web (enrich c) =
     (case website_call c of None \<Rightarrow> unset | Some v \<Rightarrow> if blank v then unset else v)
   \<and> tg (enrich c) =
     (case telegram_call c of None \<Rightarrow> unset | Some v \<Rightarrow> if blank v then unset else v)
   \<and> tw (enrich c) =
     (case twitter_call c of None \<Rightarrow> unset | Some v \<Rightarrow> if blank v then unset else v)
   \<and> symbolText (enrich c) =
     (case symbol_call c of None \<Rightarrow> unset | Some v \<Rightarrow> if blank v then unset else v)
   \<and> decimalsText (enrich c) =
     (case decimals_call c of None \<Rightarrow> unset | Some d \<Rightarrow> dec d)
   \<and> enrich (c\<lparr>description_call := None\<rparr>) = (enrich c)\<lparr>desc := unset\<rparr>
   \<and> enrich (c\<lparr>website_call := None\<rparr>) = (enrich c)\<lparr>web := unset\<rparr>
   \<and> enrich (c\<lparr>telegram_call := None\<rparr>) = (enrich c)\<lparr>tg := unset\<rparr>
   \<and> enrich (c\<lparr>twitter_call := None\<rparr>) = (enrich c)\<lparr>tw := unset\<rparr>
   \<and> enrich (c\<lparr>symbol_call := None\<rparr>) = (enrich c)\<lparr>symbolText := unset\<rparr>
   \<and> enrich (c\<lparr>decimals_call := None\<rparr>) = (enrich c)\<lparr>decimalsText := unset\<rparr>
   \<and> message_lines En addr amount (enrich c) =
       [ rocket @ lit '' <b>New PumpToken Deployed</b>'',
         lit ''Contract: <code>'' @ addr @ lit ''</code>'',
         lit ''Symbol: '' @ symbolText (enrich c),
         lit ''Decimals: '' @ decimalsText (enrich c),
         lit ''Dev Buy: <b>'' @ formatEther amount @ lit '' OKB</b>'',
         lit ''Description: '' @ desc (enrich c),
         lit ''Website: '' @ web (enrich c),
         lit ''TG: '' @ tg (enrich c),
         lit ''Twitter: '' @ tw (enrich c) ]
   \<and> message_lines Zh addr amount (enrich c) =
       [ rocket @ lit '' <b>'' @ [0x65B0] @ lit '' PumpToken '' @ [0x4E0A, 0x7EBF] @ lit ''</b>'',
         [0x5408, 0x7EA6] @ lit '': <code>'' @ addr @ lit ''</code>'',
         [0x540D, 0x79F0] @ lit '': '' @ symbolText (enrich c),
         [0x5C0F, 0x6570] @ lit '': '' @ decimalsText (enrich c),
         lit ''Dev '' @ [0x4E70, 0x5165] @ lit '': <b>'' @ formatEther amount @ lit '' OKB</b>'',
         [0x7B80, 0x4ECB] @ lit '': '' @ desc (enrich c),
         [0x5B98, 0x7F51] @ lit '': '' @ web (enrich c),
         lit ''TG: '' @ tg (enrich c),
         lit ''Twitter: '' @ tw (enrich c) ]"
proof -
  have e: "blank []" by (simp add: blank_def)
  have f: "desc (enrich c) =
     (case description_call c of None \<Rightarrow> unset | Some v \<Rightarrow> if blank v then unset else v)"
     "web (enrich c) =
     (case website_call c of None \<Rightarrow> unset | Some v \<Rightarrow> if blank v then unset else v)"
     "tg (enrich c) =
     (case telegram_call c of None \<Rightarrow> unset | Some v \<Rightarrow> if blank v then unset else v)"
     "tw (enrich c) =
     (case twitter_call c of None \<Rightarrow> unset | Some v \<Rightarrow> if blank v then unset else v)"
     "symbolText (enrich c) =
     (case symbol_call c of None \<Rightarrow> unset | Some v \<Rightarrow> if blank v then unset else v)"
     "decimalsText (enrich c) =
     (case decimals_call c of None \<Rightarrow> unset | Some d \<Rightarrow> dec d)"
    using e by (simp_all add: enrich_def Let_def toText_blank catch_empty_def decimalsText_of_def
                  split: option.splits)
  have g: "enrich (c\<lparr>description_call := None\<rparr>) = (enrich c)\<lparr>desc := unset\<rparr>"
    "enrich (c\<lparr>website_call := None\<rparr>) = (enrich c)\<lparr>web := unset\<rparr>"
    "enrich (c\<lparr>telegram_call := None\<rparr>) = (enrich c)\<lparr>tg := unset\<rparr>"
    "enrich (c\<lparr>twitter_call := None\<rparr>) = (enrich c)\<lparr>tw := unset\<rparr>"
    "enrich (c\<lparr>symbol_call := None\<rparr>) = (enrich c)\<lparr>symbolText := unset\<rparr>"
    "enrich (c\<lparr>decimals_call := None\<rparr>) = (enrich c)\<lparr>decimalsText := unset\<rparr>"
    using e by (simp_all add: enrich_def Let_def toText_blank catch_empty_def decimalsText_of_def)
  have h: "message_lines En addr amount (enrich c) =
       [ rocket @ lit '' <b>New PumpToken Deployed</b>'',
         lit ''Contract: <code>'' @ addr @ lit ''</code>'',
         lit ''Symbol: '' @ symbolText (enrich c),
         lit ''Decimals: '' @ decimalsText (enrich c),
         lit ''Dev Buy: <b>'' @ formatEther amount @ lit '' OKB</b>'',
         lit ''Description: '' @ desc (enrich c),
         lit ''Website: '' @ web (enrich c),
         lit ''TG: '' @ tg (enrich c),
         lit ''Twitter: '' @ tw (enrich c) ]"
    by (simp add: message_lines_def)
  have h': "message_lines Zh addr amount (enrich c) =
       [ rocket @ lit '' <b>'' @ [0x65B0] @ lit '' PumpToken '' @ [0x4E0A, 0x7EBF] @ lit ''</b>'',
         [0x5408, 0x7EA6] @ lit '': <code>'' @ addr @ lit ''</code>'',
         [0x540D, 0x79F0] @ lit '': '' @ symbolText (enrich c),
         [0x5C0F, 0x6570] @ lit '': '' @ decimalsText (enrich c),
         lit ''Dev '' @ [0x4E70, 0x5165] @ lit '': <b>'' @ formatEther amount @ lit '' OKB</b>'',
         [0x7B80, 0x4ECB] @ lit '': '' @ desc (enrich c),
         [0x5B98, 0x7F51] @ lit '': '' @ web (enrich c),
         lit ''TG: '' @ tg (enrich c),
         lit ''Twitter: '' @ tw (enrich c) ]"
    by (simp add: message_lines_def)
  from f g h h' show ?thesis by simp
qed

text \<open>
  Claim C7 as stated fails when a call succeeds with an empty string: with the symbol call
  the only failure and the website call returning the empty string, the website field is
  the sentinel as well, not the value that was fetched.
\<close>

theorem enrich_blank_counterexample:
  "website_call \<lparr> description_call = Some (lit ''d''), website_call = Some [],
       telegram_call = Some (lit ''t''), twitter_call = Some (lit ''w''),
       symbol_call = None, decimals_call = Some 18 \<rparr> = Some []
   \<and> web (enrich \<lparr> description_call = Some (lit ''d''), website_call = Some [],
       telegram_call = Some (lit ''t''), twitter_call = Some (lit ''w''),
       symbol_call = None, decimals_call = Some 18 \<rparr>) = unset
   \<and> symbolText (enrich \<lparr> description_call = Some (lit ''d''), website_call = Some [],
       telegram_call = Some (lit ''t''), twitter_call = Some (lit ''w''),
       symbol_call = None, decimals_call = Some 18 \<rparr>) = unset
   \<and> unset \<noteq> []"
  by (simp add: enrich_def Let_def toText_def catch_empty_def unset_def)

section \<open>The media-link filter\<close>

lemma push_to_user_prefs:
  "userPushPrefs s u = Some p \<Longrightarrow>
   userPushPrefs (fst (push_to_user addr amount e ok now v s)) u = Some p"
  by (auto simp: push_to_user_def Let_def getPrefs_def split: prod.splits option.splits)

lemma push_to_user_other:
  "v \<noteq> u \<Longrightarrow> filter (is_message_to u a n) (snd (push_to_user addr amount e ok now v s)) = []"
  by (auto simp: push_to_user_def Let_def split: prod.splits)

lemma push_to_user_self:
  "userPushPrefs s u = Some p \<Longrightarrow>
   snd (push_to_user addr amount e ok now u s) =
     (if requireMediaLink p \<and> \<not> hasMedia e then []
      else [MessageSent u addr amount (message_text (lang p) addr amount e)])"
  by (auto simp: push_to_user_def Let_def getPrefs_def split: prod.splits)

lemma fanout_messages:
  "distinct us \<Longrightarrow> userPushPrefs s u = Some p \<Longrightarrow>
   filter (is_message_to u addr amount) (snd (fanout addr amount e ok now us s)) =
     (if u \<in> set us \<and> \<not> (requireMediaLink p \<and> \<not> hasMedia e)
      then [MessageSent u addr amount (message_text (lang p) addr amount e)] else [])"
proof (induction us arbitrary: s)
  case Nil
  then show ?case by simp
next
  case (Cons v us)
  obtain s1 a1 where p: "push_to_user addr amount e ok now v s = (s1, a1)"
    by (cases "push_to_user addr amount e ok now v s")
  obtain s2 a2 where f: "fanout addr amount e ok now us s1 = (s2, a2)"
    by (cases "fanout addr amount e ok now us s1")
  have s1: "userPushPrefs s1 u = Some p"
    using push_to_user_prefs [OF Cons.prems(2), of addr amount e ok now v] p by simp
  have d: "distinct us" and nin: "v \<notin> set us" using Cons.prems(1) by simp_all
  have ih: "filter (is_message_to u addr amount) a2 =
     (if u \<in> set us \<and> \<not> (requireMediaLink p \<and> \<not> hasMedia e)
      then [MessageSent u addr amount (message_text (lang p) addr amount e)] else [])"
    using Cons.IH [OF d s1] f by simp
  show ?case
  proof (cases "v = u")
    case True
    then have "a1 = (if requireMediaLink p \<and> \<not> hasMedia e then []
      else [MessageSent u addr amount (message_text (lang p) addr amount e)])"
      using push_to_user_self [OF Cons.prems(2), of addr amount e ok now] p by simp
    with True nin ih p f show ?thesis by auto
  next
    case False
    then have "filter (is_message_to u addr amount) a1 = []"
      using push_to_user_other [of v u addr amount addr amount e ok now s] p by simp
    with False ih p f show ?thesis by auto
  qed
qed

text \<open>
  Claim C6. For an event that passes the dedup test and a subscriber who requires a media
  link, \<open>sendMessage\<close> is called for that subscriber and event not at all when website,
  telegram and twitter are all the sentinel, and exactly once otherwise.
\<close>

theorem media_link_filter:
  assumes "distinct (subscribedUsers s)"
    and "u \<in> set (subscribedUsers s)"
    and "userPushPrefs s u = Some p"
    and "requireMediaLink p"
    and "parseLog l = Some (addr, amount)"
    and "\<not> set_has (sentKeys s) (dedup_key addr amount)"
  shows "messages_to u addr amount (snd (process_log now l s)) =
           (if web (enrich (calls l)) = unset \<and> tg (enrich (calls l)) = unset
               \<and> tw (enrich (calls l)) = unset then 0 else 1)"
proof -
  let ?s1 = "s\<lparr>sentKeys := set_add (dedup_key addr amount) (sentKeys s)\<rparr>"
  have "filter (is_message_to u addr amount)
          (snd (fanout addr amount (enrich (calls l)) (sendMessage_ok l) now (subscribedUsers s) ?s1)) =
     (if u \<in> set (subscribedUsers s) \<and> \<not> (requireMediaLink p \<and> \<not> hasMedia (enrich (calls l)))
      then [MessageSent u addr amount (message_text (lang p) addr amount (enrich (calls l)))] else [])"
    using assms(1,3) by (intro fanout_messages) simp_all
  then show ?thesis
    using assms(2,4,5,6)
    by (auto simp: messages_to_def process_log_def Let_def hasMedia_iff split: prod.splits)
qed

lemma lit_simps: "lit [] = []" "lit (c # cs) = of_nat (of_char c) # lit cs"
  by (simp_all add: lit_def)

theorem media_link_filter_witness:
  "messages_to 7 (lit ''0xA'') 5 (snd (process_log 0
      \<lparr> parseLog = Some (lit ''0xA'', 5),
        calls = \<lparr> description_call = None, website_call = None, telegram_call = None,
                  twitter_call = Some (lit ''@x''), symbol_call = None, decimals_call = None \<rparr>,
        sendMessage_ok = (\<lambda>u. True) \<rparr>
      (init_state\<lparr>subscribedUsers := [7],
         userPushPrefs := [7 \<mapsto> default_prefs\<lparr>requireMediaLink := True\<rparr>]\<rparr>))) = 1
   \<and> messages_to 7 (lit ''0xA'') 5 (snd (process_log 0
      \<lparr> parseLog = Some (lit ''0xA'', 5),
        calls = \<lparr> description_call = Some (lit ''about''), website_call = None,
                  telegram_call = Some (lit '' ''), twitter_call = Some [],
                  symbol_call = Some (lit ''SYM''), decimals_call = Some 18 \<rparr>,
        sendMessage_ok = (\<lambda>u. True) \<rparr>
      (init_state\<lparr>subscribedUsers := [7],
         userPushPrefs := [7 \<mapsto> default_prefs\<lparr>requireMediaLink := True\<rparr>]\<rparr>))) = 0"
proof -
  let ?s = "init_state\<lparr>subscribedUsers := [7::int],
         userPushPrefs := [7 \<mapsto> default_prefs\<lparr>requireMediaLink := True\<rparr>]\<rparr>"
  let ?p = "default_prefs\<lparr>requireMediaLink := True\<rparr>"
  let ?l1 = "\<lparr> parseLog = Some (lit ''0xA'', 5::nat),
        calls = \<lparr> description_call = None, website_call = None, telegram_call = None,
                  twitter_call = Some (lit ''@x''), symbol_call = None, decimals_call = None \<rparr>,
        sendMessage_ok = (\<lambda>u::int. True) \<rparr>"
  let ?l0 = "\<lparr> parseLog = Some (lit ''0xA'', 5::nat),
        calls = \<lparr> description_call = Some (lit ''about''), website_call = None,
                  telegram_call = Some (lit '' ''), twitter_call = Some [],
                  symbol_call = Some (lit ''SYM''), decimals_call = Some 18 \<rparr>,
        sendMessage_ok = (\<lambda>u::int. True) \<rparr>"
  have h: "distinct (subscribedUsers ?s)" "7 \<in> set (subscribedUsers ?s)"
    "userPushPrefs ?s 7 = Some ?p" "requireMediaLink ?p"
    "parseLog ?l1 = Some (lit ''0xA'', 5)" "parseLog ?l0 = Some (lit ''0xA'', 5)"
    "\<not> set_has (sentKeys ?s) (dedup_key (lit ''0xA'') 5)"
    by (simp_all add: init_state_def set_has_def default_prefs_def)
  have e1: "tw (enrich (calls ?l1)) \<noteq> unset"
    by (simp add: enrich_def Let_def toText_blank catch_empty_def blank_def isWhiteSpace_def
          lit_simps unset_def)
  have e0: "web (enrich (calls ?l0)) = unset \<and> tg (enrich (calls ?l0)) = unset
            \<and> tw (enrich (calls ?l0)) = unset"
    by (simp add: enrich_def Let_def toText_blank catch_empty_def blank_def isWhiteSpace_def
          lit_simps)
  from media_link_filter [OF h(1) h(2) h(3) h(4) h(5) h(7), of 0]
       media_link_filter [OF h(1) h(2) h(3) h(4) h(6) h(7), of 0] e1 e0
  show ?thesis by simp
qed

section \<open>Keys before fetches and messages\<close>

lemma recorded_keys_append: "recorded_keys (t1 @ t2) = recorded_keys t1 @ recorded_keys t2"
  by (induction t1 rule: recorded_keys.induct) simp_all

lemma messages_to_append:
  "messages_to u a n (t1 @ t2) = messages_to u a n t1 + messages_to u a n t2"
  by (simp add: messages_to_def)

lemma keys_first_Cons:
  "keys_first K (a # tr) =
     ((case uses_key a of None \<Rightarrow> True | Some k \<Rightarrow> k \<in> K)
      \<and> keys_first (K \<union> set (recorded_keys [a])) tr)"
  by (cases a) simp_all

lemma recorded_keys_Cons: "recorded_keys (a # tr) = recorded_keys [a] @ recorded_keys tr"
  by (cases a) simp_all

lemma recorded_keys_single:
  "set (recorded_keys [a]) = (case a of KeyRecorded k \<Rightarrow> {k} | _ \<Rightarrow> {})"
  by (cases a) simp_all

lemma keys_first_mono: "keys_first K tr \<Longrightarrow> K \<subseteq> K' \<Longrightarrow> keys_first K' tr"
proof (induction tr arbitrary: K K')
  case Nil
  then show ?case by simp
next
  case (Cons a tr)
  from Cons.prems have u: "case uses_key a of None \<Rightarrow> True | Some k \<Rightarrow> k \<in> K'"
    by (auto simp: keys_first_Cons split: option.splits)
  from Cons.prems have "keys_first (K \<union> set (recorded_keys [a])) tr"
    by (simp add: keys_first_Cons)
  moreover have "K \<union> set (recorded_keys [a]) \<subseteq> K' \<union> set (recorded_keys [a])"
    using Cons.prems(2) by auto
  ultimately have "keys_first (K' \<union> set (recorded_keys [a])) tr" by (rule Cons.IH)
  with u show ?case by (simp add: keys_first_Cons)
qed

lemma keys_first_append:
  "keys_first K (t1 @ t2) = (keys_first K t1 \<and> keys_first (K \<union> set (recorded_keys t1)) t2)"
proof (induction t1 arbitrary: K)
  case Nil
  then show ?case by simp
next
  case (Cons a t1)
  have "set (recorded_keys (a # t1)) = set (recorded_keys [a]) \<union> set (recorded_keys t1)"
    using recorded_keys_Cons [of a t1] by simp
  then have "K \<union> set (recorded_keys (a # t1))
             = K \<union> set (recorded_keys [a]) \<union> set (recorded_keys t1)" by auto
  then show ?case
    using Cons.IH [of "K \<union> set (recorded_keys [a])"]
    by (simp only: append_Cons keys_first_Cons) auto
qed

lemma messages_to_Cons:
  "messages_to u a n (x # tr) = (if is_message_to u a n x then 1 else 0) + messages_to u a n tr"
  by (simp add: messages_to_def)

lemma is_message_to_uses_key: "is_message_to u a n x \<Longrightarrow> uses_key x = Some (dedup_key a n)"
  by (cases x) simp_all

lemma message_needs_key:
  "keys_first K tr \<Longrightarrow> 0 < messages_to u a n tr \<Longrightarrow>
   dedup_key a n \<in> K \<union> set (recorded_keys tr)"
proof (induction tr arbitrary: K)
  case Nil
  then show ?case by (simp add: messages_to_def)
next
  case (Cons x tr)
  from Cons.prems(1) have kf: "keys_first (K \<union> set (recorded_keys [x])) tr"
    and ux: "case uses_key x of None \<Rightarrow> True | Some k \<Rightarrow> k \<in> K"
    by (simp_all add: keys_first_Cons)
  have rk: "set (recorded_keys (x # tr)) = set (recorded_keys [x]) \<union> set (recorded_keys tr)"
    using recorded_keys_Cons [of x tr] by simp
  show ?case
  proof (cases "is_message_to u a n x")
    case True
    then have "uses_key x = Some (dedup_key a n)" by (rule is_message_to_uses_key)
    with ux show ?thesis by simp
  next
    case False
    with Cons.prems(2) have "0 < messages_to u a n tr" by (simp add: messages_to_Cons)
    with kf have "dedup_key a n \<in> K \<union> set (recorded_keys [x]) \<union> set (recorded_keys tr)"
      by (rule Cons.IH)
    with rk show ?thesis by auto
  qed
qed

lemma keys_first_index:
  "keys_first K tr \<Longrightarrow> i < length tr \<Longrightarrow> uses_key (tr ! i) = Some k \<Longrightarrow>
   k \<in> K \<or> KeyRecorded k \<in> set (take i tr)"
proof (induction tr arbitrary: K i)
  case Nil
  then show ?case by simp
next
  case (Cons x tr)
  from Cons.prems(1) have kf: "keys_first (K \<union> set (recorded_keys [x])) tr"
    and ux: "case uses_key x of None \<Rightarrow> True | Some k \<Rightarrow> k \<in> K"
    by (simp_all add: keys_first_Cons)
  show ?case
  proof (cases i)
    case 0
    with Cons.prems(3) ux show ?thesis by simp
  next
    case (Suc j)
    with Cons.prems have "j < length tr" "uses_key (tr ! j) = Some k" by simp_all
    with kf have "k \<in> K \<union> set (recorded_keys [x]) \<or> KeyRecorded k \<in> set (take j tr)"
      by (rule Cons.IH)
    moreover have "k \<in> set (recorded_keys [x]) \<Longrightarrow> x = KeyRecorded k"
      by (cases x) simp_all
    ultimately show ?thesis using Suc by auto
  qed
qed

lemma only_alerts_append: "only_alerts (a1 @ a2) = (only_alerts a1 \<and> only_alerts a2)"
  by (simp add: only_alerts_def)

lemma only_alerts_silent:
  "only_alerts acts \<Longrightarrow>
   recorded_keys acts = [] \<and> keys_first {} acts \<and> messages_to u a n acts = 0"
proof (induction acts)
  case Nil
  then show ?case by (simp add: messages_to_def)
next
  case (Cons x acts)
  then show ?case by (cases x) (simp_all add: only_alerts_def messages_to_def)
qed

lemma distinct_set_add: "distinct xs \<Longrightarrow> distinct (set_add x xs)"
  by (simp add: set_add_def)

section \<open>No message twice, with cycles overlapping\<close>

lemma messages_to_pos:
  "0 < messages_to u a n tr \<Longrightarrow> \<exists>txt. MessageSent u a n txt \<in> set tr"
proof (induction tr)
  case Nil
  then show ?case by (simp add: messages_to_def)
next
  case (Cons x tr)
  show ?case
  proof (cases "is_message_to u a n x")
    case True
    then obtain body where "x = MessageSent u a n body" by (cases x) auto
    then show ?thesis by auto
  next
    case False
    with Cons.prems have "0 < messages_to u a n tr" by (simp add: messages_to_Cons)
    with Cons.IH show ?thesis by auto
  qed
qed

lemma messages_to_member:
  "MessageSent u a n txt \<in> set tr \<Longrightarrow> 0 < messages_to u a n tr"
  by (induction tr) (auto simp: messages_to_Cons)

lemma nth_not_in_take:
  "distinct U \<Longrightarrow> b \<le> j \<Longrightarrow> j < length U \<Longrightarrow> U ! j \<notin> set (take b U)"
proof
  assume d: "distinct U" and b: "b \<le> j" and j: "j < length U" and m: "U ! j \<in> set (take b U)"
  from m obtain i where i: "i < length (take b U)" "take b U ! i = U ! j"
    by (auto simp: in_set_conv_nth)
  then have "i < b" "i < length U" "U ! i = U ! j" by simp_all
  with d j have "i = j" by (simp add: nth_eq_iff_index_eq)
  with \<open>i < b\<close> b show False by simp
qed

lemma dedup_inv_send:
  assumes inv: "dedup_inv K U tr sts"
    and k: "k < length sts"
    and ev: "current_event (sts ! k) = Some (a, n, b)"
    and j: "b \<le> j" "j < length U"
  shows "dedup_inv K U (tr @ [MessageSent (U ! j) a n txt]) (sts[k := AwaitSend rest a n e j (U ! j)])"
proof -
  let ?u = "U ! j"
  let ?tr = "tr @ [MessageSent ?u a n txt]"
  let ?sts = "sts[k := AwaitSend rest a n e j ?u]"
  from inv have d: "distinct U" and ks: "set K = set (recorded_keys tr)"
    and dk: "distinct (recorded_keys tr)" and kf: "keys_first {} tr"
    and once: "\<And>u a n. messages_to u a n tr \<le> 1"
    by (simp_all add: dedup_inv_def)
  from inv have own: "\<And>k a n b. k < length sts \<Longrightarrow> current_event (sts ! k) = Some (a, n, b) \<Longrightarrow>
            dedup_key a n \<in> set K \<and> b \<le> length U
            \<and> (\<forall>u a' n' txt. MessageSent u a' n' txt \<in> set tr \<and> dedup_key a' n' = dedup_key a n
                  \<longrightarrow> a' = a \<and> n' = n \<and> u \<in> set (take b U))"
    unfolding dedup_inv_def by blast
  from inv have apart: "\<And>k k' a n b a' n' b'. k < length sts \<Longrightarrow> k' < length sts \<Longrightarrow> k \<noteq> k'
            \<Longrightarrow> current_event (sts ! k) = Some (a, n, b)
            \<Longrightarrow> current_event (sts ! k') = Some (a', n', b') \<Longrightarrow> dedup_key a n \<noteq> dedup_key a' n'"
    unfolding dedup_inv_def by blast
  note mine = own [OF k ev]
  have notyet: "messages_to ?u a n tr = 0"
  proof (rule ccontr)
    assume "messages_to ?u a n tr \<noteq> 0"
    then have "0 < messages_to ?u a n tr" by simp
    then obtain t where "MessageSent ?u a n t \<in> set tr" using messages_to_pos by blast
    with mine have "?u \<in> set (take b U)" by blast
    with nth_not_in_take [OF d j] show False by simp
  qed
  have rk: "recorded_keys ?tr = recorded_keys tr" by (simp add: recorded_keys_append)
  have kf': "keys_first {} ?tr"
    using kf mine ks by (simp add: keys_first_append)
  have once': "\<And>u' a' n'. messages_to u' a' n' ?tr \<le> 1"
  proof -
    fix u' a' n'
    show "messages_to u' a' n' ?tr \<le> 1"
    proof (cases "u' = ?u \<and> a' = a \<and> n' = n")
      case True
      with notyet show ?thesis by (simp add: messages_to_append messages_to_Cons messages_to_def)
    next
      case False
      then have "messages_to u' a' n' ?tr = messages_to u' a' n' tr"
        by (auto simp: messages_to_def)
      with once show ?thesis by simp
    qed
  qed
  have own': "\<And>k' a' n' b'. k' < length ?sts \<Longrightarrow> current_event (?sts ! k') = Some (a', n', b') \<Longrightarrow>
            dedup_key a' n' \<in> set K \<and> b' \<le> length U
            \<and> (\<forall>u a'' n'' txt. MessageSent u a'' n'' txt \<in> set ?tr \<and> dedup_key a'' n'' = dedup_key a' n'
                  \<longrightarrow> a'' = a' \<and> n'' = n' \<and> u \<in> set (take b' U))"
  proof -
    fix k' a' n' b'
    assume k': "k' < length ?sts" and ev': "current_event (?sts ! k') = Some (a', n', b')"
    show "dedup_key a' n' \<in> set K \<and> b' \<le> length U
            \<and> (\<forall>u a'' n'' txt. MessageSent u a'' n'' txt \<in> set ?tr \<and> dedup_key a'' n'' = dedup_key a' n'
                  \<longrightarrow> a'' = a' \<and> n'' = n' \<and> u \<in> set (take b' U))"
    proof (cases "k' = k")
      case True
      with k ev' have e: "a' = a" "n' = n" "b' = Suc j" by simp_all
      have sub: "set (take b U) \<subseteq> set (take (Suc j) U)"
        using j by (meson Suc_leD le_SucI set_take_subset_set_take)
      have here: "?u \<in> set (take (Suc j) U)"
        using j by (simp add: take_Suc_conv_app_nth)
      have "\<And>u a'' n'' txt. MessageSent u a'' n'' txt \<in> set ?tr \<Longrightarrow> dedup_key a'' n'' = dedup_key a n
                  \<Longrightarrow> a'' = a \<and> n'' = n \<and> u \<in> set (take (Suc j) U)"
      proof -
        fix u a'' n'' body
        assume m: "MessageSent u a'' n'' body \<in> set ?tr" and q: "dedup_key a'' n'' = dedup_key a n"
        show "a'' = a \<and> n'' = n \<and> u \<in> set (take (Suc j) U)"
        proof (cases "MessageSent u a'' n'' body \<in> set tr")
          case True
          with mine q have "a'' = a \<and> n'' = n \<and> u \<in> set (take b U)" by blast
          with sub show ?thesis by blast
        next
          case False
          with m have "u = ?u \<and> a'' = a \<and> n'' = n" by simp
          with here show ?thesis by simp
        qed
      qed
      then have m3: "\<forall>u a'' n'' txt. MessageSent u a'' n'' txt \<in> set ?tr \<and> dedup_key a'' n'' = dedup_key a n
                  \<longrightarrow> a'' = a \<and> n'' = n \<and> u \<in> set (take (Suc j) U)" by blast
      from mine have m1: "dedup_key a n \<in> set K" by blast
      from j have m2: "Suc j \<le> length U" by simp
      from m1 m2 m3 show ?thesis unfolding e by (intro conjI)
    next
      case False
      with k' ev' have o: "k' < length sts" "current_event (sts ! k') = Some (a', n', b')" by simp_all
      have ne: "dedup_key a' n' \<noteq> dedup_key a n" using apart [OF o(1) k False o(2) ev] .
      note theirs = own [OF o]
      have "\<And>u a'' n'' body. MessageSent u a'' n'' body \<in> set ?tr \<Longrightarrow> dedup_key a'' n'' = dedup_key a' n'
                  \<Longrightarrow> a'' = a' \<and> n'' = n' \<and> u \<in> set (take b' U)"
      proof -
        fix u a'' n'' body
        assume m: "MessageSent u a'' n'' body \<in> set ?tr" and q: "dedup_key a'' n'' = dedup_key a' n'"
        from m q ne have "MessageSent u a'' n'' body \<in> set tr" by auto
        with theirs q show "a'' = a' \<and> n'' = n' \<and> u \<in> set (take b' U)" by blast
      qed
      then have "\<forall>u a'' n'' txt. MessageSent u a'' n'' txt \<in> set ?tr \<and> dedup_key a'' n'' = dedup_key a' n'
                  \<longrightarrow> a'' = a' \<and> n'' = n' \<and> u \<in> set (take b' U)" by blast
      moreover from theirs have "dedup_key a' n' \<in> set K" "b' \<le> length U" by blast+
      ultimately show ?thesis by (intro conjI)
    qed
  qed
  have apart': "\<And>k1 k2 a1 n1 b1 a2 n2 b2. k1 < length ?sts \<Longrightarrow> k2 < length ?sts \<Longrightarrow> k1 \<noteq> k2
            \<Longrightarrow> current_event (?sts ! k1) = Some (a1, n1, b1)
            \<Longrightarrow> current_event (?sts ! k2) = Some (a2, n2, b2) \<Longrightarrow> dedup_key a1 n1 \<noteq> dedup_key a2 n2"
  proof -
    fix k1 k2 a1 n1 b1 a2 n2 b2
    assume h: "k1 < length ?sts" "k2 < length ?sts" "k1 \<noteq> k2"
      "current_event (?sts ! k1) = Some (a1, n1, b1)" "current_event (?sts ! k2) = Some (a2, n2, b2)"
    have c1: "\<exists>b. current_event (sts ! k1) = Some (a1, n1, b)"
      using h(1,4) k ev by (cases "k1 = k") auto
    have c2: "\<exists>b. current_event (sts ! k2) = Some (a2, n2, b)"
      using h(2,5) k ev by (cases "k2 = k") auto
    from c1 obtain c1b where c1b: "current_event (sts ! k1) = Some (a1, n1, c1b)" by blast
    from c2 obtain c2b where c2b: "current_event (sts ! k2) = Some (a2, n2, c2b)" by blast
    from h(1,2) have l: "k1 < length sts" "k2 < length sts" by simp_all
    show "dedup_key a1 n1 \<noteq> dedup_key a2 n2" using l h(3) c1b c2b by (rule apart)
  qed
  show ?thesis
    unfolding dedup_inv_def rk
  proof (intro conjI)
    show "distinct U" by (rule d)
    show "set K = set (recorded_keys tr)" by (rule ks)
    show "distinct (recorded_keys tr)" by (rule dk)
    show "keys_first {} ?tr" by (rule kf')
    show "\<forall>u a n. messages_to u a n ?tr \<le> 1" using once' by blast
    show "\<forall>k a n b. k < length ?sts \<and> current_event (?sts ! k) = Some (a, n, b) \<longrightarrow>
            dedup_key a n \<in> set K \<and> b \<le> length U
            \<and> (\<forall>u a' n' txt. MessageSent u a' n' txt \<in> set ?tr \<and> dedup_key a' n' = dedup_key a n
                  \<longrightarrow> a' = a \<and> n' = n \<and> u \<in> set (take b U))"
      using own' by (intro allI impI) (elim conjE)
    show "\<forall>k k' a n b a' n' b'. k < length ?sts \<and> k' < length ?sts \<and> k \<noteq> k'
            \<and> current_event (?sts ! k) = Some (a, n, b)
            \<and> current_event (?sts ! k') = Some (a', n', b') \<longrightarrow> dedup_key a n \<noteq> dedup_key a' n'"
      using apart' by (intro allI impI) (elim conjE)
  qed
qed


lemma dedup_inv_D:
  assumes "dedup_inv K U tr sts"
  shows "distinct U" "set K = set (recorded_keys tr)" "distinct (recorded_keys tr)"
    "keys_first {} tr" "\<And>u a n. messages_to u a n tr \<le> 1"
    "\<And>k a n b. k < length sts \<Longrightarrow> current_event (sts ! k) = Some (a, n, b) \<Longrightarrow>
            dedup_key a n \<in> set K \<and> b \<le> length U
            \<and> (\<forall>u a' n' txt. MessageSent u a' n' txt \<in> set tr \<and> dedup_key a' n' = dedup_key a n
                  \<longrightarrow> a' = a \<and> n' = n \<and> u \<in> set (take b U))"
    "\<And>k k' a n b a' n' b'. k < length sts \<Longrightarrow> k' < length sts \<Longrightarrow> k \<noteq> k'
            \<Longrightarrow> current_event (sts ! k) = Some (a, n, b)
            \<Longrightarrow> current_event (sts ! k') = Some (a', n', b') \<Longrightarrow> dedup_key a n \<noteq> dedup_key a' n'"
proof -
  from assms show "distinct U" "set K = set (recorded_keys tr)" "distinct (recorded_keys tr)"
    "keys_first {} tr" "\<And>u a n. messages_to u a n tr \<le> 1"
    by (simp_all add: dedup_inv_def)
  from assms show "\<And>k a n b. k < length sts \<Longrightarrow> current_event (sts ! k) = Some (a, n, b) \<Longrightarrow>
            dedup_key a n \<in> set K \<and> b \<le> length U
            \<and> (\<forall>u a' n' txt. MessageSent u a' n' txt \<in> set tr \<and> dedup_key a' n' = dedup_key a n
                  \<longrightarrow> a' = a \<and> n' = n \<and> u \<in> set (take b U))"
    unfolding dedup_inv_def by blast
  from assms show "\<And>k k' a n b a' n' b'. k < length sts \<Longrightarrow> k' < length sts \<Longrightarrow> k \<noteq> k'
            \<Longrightarrow> current_event (sts ! k) = Some (a, n, b)
            \<Longrightarrow> current_event (sts ! k') = Some (a', n', b') \<Longrightarrow> dedup_key a n \<noteq> dedup_key a' n'"
    unfolding dedup_inv_def by blast
qed

lemma dedup_inv_I:
  assumes "distinct U" "set K = set (recorded_keys tr)" "distinct (recorded_keys tr)"
    "keys_first {} tr" "\<And>u a n. messages_to u a n tr \<le> 1"
    "\<And>k a n b. k < length sts \<Longrightarrow> current_event (sts ! k) = Some (a, n, b) \<Longrightarrow>
            dedup_key a n \<in> set K \<and> b \<le> length U
            \<and> (\<forall>u a' n' txt. MessageSent u a' n' txt \<in> set tr \<and> dedup_key a' n' = dedup_key a n
                  \<longrightarrow> a' = a \<and> n' = n \<and> u \<in> set (take b U))"
    "\<And>k k' a n b a' n' b'. k < length sts \<Longrightarrow> k' < length sts \<Longrightarrow> k \<noteq> k'
            \<Longrightarrow> current_event (sts ! k) = Some (a, n, b)
            \<Longrightarrow> current_event (sts ! k') = Some (a', n', b') \<Longrightarrow> dedup_key a n \<noteq> dedup_key a' n'"
  shows "dedup_inv K U tr sts"
  unfolding dedup_inv_def
proof (intro conjI)
  show "distinct U" "set K = set (recorded_keys tr)" "distinct (recorded_keys tr)"
    "keys_first {} tr" by (rule assms)+
  show "\<forall>u a n. messages_to u a n tr \<le> 1" using assms(5) by blast
  show "\<forall>k a n b. k < length sts \<and> current_event (sts ! k) = Some (a, n, b) \<longrightarrow>
            dedup_key a n \<in> set K \<and> b \<le> length U
            \<and> (\<forall>u a' n' txt. MessageSent u a' n' txt \<in> set tr \<and> dedup_key a' n' = dedup_key a n
                  \<longrightarrow> a' = a \<and> n' = n \<and> u \<in> set (take b U))"
    using assms(6) by (intro allI impI) (elim conjE)
  show "\<forall>k k' a n b a' n' b'. k < length sts \<and> k' < length sts \<and> k \<noteq> k'
            \<and> current_event (sts ! k) = Some (a, n, b)
            \<and> current_event (sts ! k') = Some (a', n', b') \<longrightarrow> dedup_key a n \<noteq> dedup_key a' n'"
    using assms(7) by (intro allI impI) (elim conjE)
qed

lemma dedup_inv_idle:
  assumes inv: "dedup_inv K U tr sts"
    and idle: "current_event st = None"
  shows "dedup_inv K U tr (sts[k := st])"
proof (rule dedup_inv_I)
  note d = dedup_inv_D [OF inv]
  show "distinct U" "set K = set (recorded_keys tr)" "distinct (recorded_keys tr)"
    "keys_first {} tr" by (rule d)+
  show "\<And>u a n. messages_to u a n tr \<le> 1" by (rule d(5))
  show "\<And>k' a n b. k' < length (sts[k := st]) \<Longrightarrow> current_event (sts[k := st] ! k') = Some (a, n, b) \<Longrightarrow>
            dedup_key a n \<in> set K \<and> b \<le> length U
            \<and> (\<forall>u a' n' txt. MessageSent u a' n' txt \<in> set tr \<and> dedup_key a' n' = dedup_key a n
                  \<longrightarrow> a' = a \<and> n' = n \<and> u \<in> set (take b U))"
  proof -
    fix k' a n b
    assume h: "k' < length (sts[k := st])" "current_event (sts[k := st] ! k') = Some (a, n, b)"
    with idle have "k' \<noteq> k" by (cases "k' = k") auto
    with h have "k' < length sts" "current_event (sts ! k') = Some (a, n, b)" by simp_all
    then show "dedup_key a n \<in> set K \<and> b \<le> length U
            \<and> (\<forall>u a' n' txt. MessageSent u a' n' txt \<in> set tr \<and> dedup_key a' n' = dedup_key a n
                  \<longrightarrow> a' = a \<and> n' = n \<and> u \<in> set (take b U))" by (rule d(6))
  qed
  show "\<And>k1 k2 a n b a' n' b'. k1 < length (sts[k := st]) \<Longrightarrow> k2 < length (sts[k := st]) \<Longrightarrow> k1 \<noteq> k2
            \<Longrightarrow> current_event (sts[k := st] ! k1) = Some (a, n, b)
            \<Longrightarrow> current_event (sts[k := st] ! k2) = Some (a', n', b') \<Longrightarrow> dedup_key a n \<noteq> dedup_key a' n'"
  proof -
    fix k1 k2 a n b a' n' b'
    assume h: "k1 < length (sts[k := st])" "k2 < length (sts[k := st])" "k1 \<noteq> k2"
      "current_event (sts[k := st] ! k1) = Some (a, n, b)"
      "current_event (sts[k := st] ! k2) = Some (a', n', b')"
    from h(1,4) idle have n1: "k1 \<noteq> k" by (cases "k1 = k") auto
    from h(2,5) idle have n2: "k2 \<noteq> k" by (cases "k2 = k") auto
    from h n1 n2 have "k1 < length sts" "k2 < length sts" "k1 \<noteq> k2"
      "current_event (sts ! k1) = Some (a, n, b)" "current_event (sts ! k2) = Some (a', n', b')"
      by simp_all
    then show "dedup_key a n \<noteq> dedup_key a' n'" by (rule d(7))
  qed
qed

lemma dedup_inv_new_task:
  assumes inv: "dedup_inv K U tr sts"
    and idle: "current_event st = None"
  shows "dedup_inv K U tr (sts @ [st])"
proof (rule dedup_inv_I)
  note d = dedup_inv_D [OF inv]
  show "distinct U" "set K = set (recorded_keys tr)" "distinct (recorded_keys tr)"
    "keys_first {} tr" by (rule d)+
  show "\<And>u a n. messages_to u a n tr \<le> 1" by (rule d(5))
  have old: "\<And>k' a n b. k' < length (sts @ [st]) \<Longrightarrow> current_event ((sts @ [st]) ! k') = Some (a, n, b)
       \<Longrightarrow> k' < length sts \<and> current_event (sts ! k') = Some (a, n, b)"
  proof -
    fix k' a n b
    assume h: "k' < length (sts @ [st])" "current_event ((sts @ [st]) ! k') = Some (a, n, b)"
    with idle have "k' \<noteq> length sts" by (cases "k' = length sts") auto
    with h(1) have "k' < length sts" by simp
    with h(2) show "k' < length sts \<and> current_event (sts ! k') = Some (a, n, b)"
      by (simp add: nth_append)
  qed
  show "\<And>k' a n b. k' < length (sts @ [st]) \<Longrightarrow> current_event ((sts @ [st]) ! k') = Some (a, n, b) \<Longrightarrow>
            dedup_key a n \<in> set K \<and> b \<le> length U
            \<and> (\<forall>u a' n' txt. MessageSent u a' n' txt \<in> set tr \<and> dedup_key a' n' = dedup_key a n
                  \<longrightarrow> a' = a \<and> n' = n \<and> u \<in> set (take b U))"
  proof -
    fix k' a n b
    assume "k' < length (sts @ [st])" "current_event ((sts @ [st]) ! k') = Some (a, n, b)"
    then have "k' < length sts \<and> current_event (sts ! k') = Some (a, n, b)" by (rule old)
    then have "k' < length sts" "current_event (sts ! k') = Some (a, n, b)" by simp_all
    then show "dedup_key a n \<in> set K \<and> b \<le> length U
            \<and> (\<forall>u a' n' txt. MessageSent u a' n' txt \<in> set tr \<and> dedup_key a' n' = dedup_key a n
                  \<longrightarrow> a' = a \<and> n' = n \<and> u \<in> set (take b U))" by (rule d(6))
  qed
  show "\<And>k1 k2 a n b a' n' b'. k1 < length (sts @ [st]) \<Longrightarrow> k2 < length (sts @ [st]) \<Longrightarrow> k1 \<noteq> k2
            \<Longrightarrow> current_event ((sts @ [st]) ! k1) = Some (a, n, b)
            \<Longrightarrow> current_event ((sts @ [st]) ! k2) = Some (a', n', b') \<Longrightarrow> dedup_key a n \<noteq> dedup_key a' n'"
  proof -
    fix k1 k2 a n b a' n' b'
    assume h: "k1 < length (sts @ [st])" "k2 < length (sts @ [st])" "k1 \<noteq> k2"
      "current_event ((sts @ [st]) ! k1) = Some (a, n, b)"
      "current_event ((sts @ [st]) ! k2) = Some (a', n', b')"
    from old [OF h(1,4)] have o1: "k1 < length sts" "current_event (sts ! k1) = Some (a, n, b)" by simp_all
    from old [OF h(2,5)] have o2: "k2 < length sts" "current_event (sts ! k2) = Some (a', n', b')" by simp_all
    from o1(1) o2(1) h(3) o1(2) o2(2) show "dedup_key a n \<noteq> dedup_key a' n'" by (rule d(7))
  qed
qed

lemma take_set_add: "b \<le> length U \<Longrightarrow> take b (set_add u U) = take b U"
  by (simp add: set_add_def)

lemma dedup_inv_subscribe:
  assumes inv: "dedup_inv K U tr sts"
  shows "dedup_inv K (set_add v U) tr sts"
proof (rule dedup_inv_I)
  note d = dedup_inv_D [OF inv]
  show "distinct (set_add v U)" using d(1) by (rule distinct_set_add)
  show "set K = set (recorded_keys tr)" "distinct (recorded_keys tr)"
    "keys_first {} tr" by (rule d)+
  show "\<And>u a n. messages_to u a n tr \<le> 1" by (rule d(5))
  show "\<And>k a n b. k < length sts \<Longrightarrow> current_event (sts ! k) = Some (a, n, b) \<Longrightarrow>
            dedup_key a n \<in> set K \<and> b \<le> length (set_add v U)
            \<and> (\<forall>u a' n' txt. MessageSent u a' n' txt \<in> set tr \<and> dedup_key a' n' = dedup_key a n
                  \<longrightarrow> a' = a \<and> n' = n \<and> u \<in> set (take b (set_add v U)))"
  proof -
    fix k a n b
    assume h: "k < length sts" "current_event (sts ! k) = Some (a, n, b)"
    note o = d(6) [OF h]
    from o have b: "b \<le> length U" by blast
    then have t: "take b (set_add v U) = take b U" by (rule take_set_add)
    have l: "b \<le> length (set_add v U)" using b by (simp add: set_add_def)
    from o l show "dedup_key a n \<in> set K \<and> b \<le> length (set_add v U)
            \<and> (\<forall>u a' n' txt. MessageSent u a' n' txt \<in> set tr \<and> dedup_key a' n' = dedup_key a n
                  \<longrightarrow> a' = a \<and> n' = n \<and> u \<in> set (take b (set_add v U)))"
      unfolding t by blast
  qed
  show "\<And>k k' a n b a' n' b'. k < length sts \<Longrightarrow> k' < length sts \<Longrightarrow> k \<noteq> k'
            \<Longrightarrow> current_event (sts ! k) = Some (a, n, b)
            \<Longrightarrow> current_event (sts ! k') = Some (a', n', b') \<Longrightarrow> dedup_key a n \<noteq> dedup_key a' n'"
    by (rule d(7))
qed

lemma only_alerts_no_message: "only_alerts acts \<Longrightarrow> MessageSent u a n body \<notin> set acts"
  by (auto simp: only_alerts_def list_all_iff)

lemma dedup_inv_alerts:
  assumes inv: "dedup_inv K U tr sts"
    and al: "only_alerts acts"
  shows "dedup_inv K U (tr @ acts) sts"
proof (rule dedup_inv_I)
  note d = dedup_inv_D [OF inv]
  have silent: "recorded_keys acts = []" "keys_first {} acts" "\<And>u a n. messages_to u a n acts = 0"
    using only_alerts_silent [OF al] by simp_all
  have rk: "recorded_keys (tr @ acts) = recorded_keys tr"
    by (simp add: recorded_keys_append silent)
  show "distinct U" by (rule d)
  show "set K = set (recorded_keys (tr @ acts))" unfolding rk by (rule d)
  show "distinct (recorded_keys (tr @ acts))" unfolding rk by (rule d)
  have "keys_first ({} \<union> set (recorded_keys tr)) acts"
    using silent(2) by (rule keys_first_mono) simp
  with d(4) show "keys_first {} (tr @ acts)" by (simp add: keys_first_append)
  show "\<And>u a n. messages_to u a n (tr @ acts) \<le> 1"
    using d(5) by (simp add: messages_to_append silent)
  show "\<And>k a n b. k < length sts \<Longrightarrow> current_event (sts ! k) = Some (a, n, b) \<Longrightarrow>
            dedup_key a n \<in> set K \<and> b \<le> length U
            \<and> (\<forall>u a' n' txt. MessageSent u a' n' txt \<in> set (tr @ acts) \<and> dedup_key a' n' = dedup_key a n
                  \<longrightarrow> a' = a \<and> n' = n \<and> u \<in> set (take b U))"
  proof -
    fix k a n b
    assume h: "k < length sts" "current_event (sts ! k) = Some (a, n, b)"
    note o = d(6) [OF h]
    have "\<And>u a' n' body. MessageSent u a' n' body \<in> set (tr @ acts) \<Longrightarrow> MessageSent u a' n' body \<in> set tr"
      using only_alerts_no_message [OF al] by auto
    with o show "dedup_key a n \<in> set K \<and> b \<le> length U
            \<and> (\<forall>u a' n' txt. MessageSent u a' n' txt \<in> set (tr @ acts) \<and> dedup_key a' n' = dedup_key a n
                  \<longrightarrow> a' = a \<and> n' = n \<and> u \<in> set (take b U))" by blast
  qed
  show "\<And>k k' a n b a' n' b'. k < length sts \<Longrightarrow> k' < length sts \<Longrightarrow> k \<noteq> k'
            \<Longrightarrow> current_event (sts ! k) = Some (a, n, b)
            \<Longrightarrow> current_event (sts ! k') = Some (a', n', b') \<Longrightarrow> dedup_key a n \<noteq> dedup_key a' n'"
    by (rule d(7))
qed

lemma dedup_inv_record:
  assumes inv: "dedup_inv K U tr sts"
    and k: "k < length sts"
    and new: "dedup_key a n \<notin> set K"
  shows "dedup_inv (K @ [dedup_key a n]) U (tr @ [KeyRecorded (dedup_key a n), MetadataFetched a n])
           (sts[k := AwaitMetadata rest a n])"
proof (rule dedup_inv_I)
  note d = dedup_inv_D [OF inv]
  let ?key = "dedup_key a n"
  let ?tr = "tr @ [KeyRecorded ?key, MetadataFetched a n]"
  let ?sts = "sts[k := AwaitMetadata rest a n]"
  have rk: "recorded_keys ?tr = recorded_keys tr @ [?key]" by (simp add: recorded_keys_append)
  have msgs: "\<And>u a' n' body. MessageSent u a' n' body \<in> set ?tr \<Longrightarrow> MessageSent u a' n' body \<in> set tr"
    by auto
  have unused: "\<And>u a' n' body. MessageSent u a' n' body \<in> set tr \<Longrightarrow> dedup_key a' n' \<noteq> ?key"
  proof
    fix u a' n' body
    assume m: "MessageSent u a' n' body \<in> set tr" and q: "dedup_key a' n' = ?key"
    from m have "0 < messages_to u a' n' tr" by (rule messages_to_member)
    with d(4) have "dedup_key a' n' \<in> {} \<union> set (recorded_keys tr)" by (rule message_needs_key)
    with q d(2) new show False by simp
  qed
  show "distinct U" by (rule d)
  show "set (K @ [?key]) = set (recorded_keys ?tr)" unfolding rk using d(2) by simp
  show "distinct (recorded_keys ?tr)" unfolding rk using d(2,3) new by simp
  show "keys_first {} ?tr" using d(4) by (simp add: keys_first_append)
  show "\<And>u a n. messages_to u a n ?tr \<le> 1"
    using d(5) by (simp add: messages_to_append messages_to_Cons) (simp add: messages_to_def)
  show "\<And>k' a' n' b. k' < length ?sts \<Longrightarrow> current_event (?sts ! k') = Some (a', n', b) \<Longrightarrow>
            dedup_key a' n' \<in> set (K @ [?key]) \<and> b \<le> length U
            \<and> (\<forall>u a'' n'' txt. MessageSent u a'' n'' txt \<in> set ?tr \<and> dedup_key a'' n'' = dedup_key a' n'
                  \<longrightarrow> a'' = a' \<and> n'' = n' \<and> u \<in> set (take b U))"
  proof -
    fix k' a' n' b
    assume h: "k' < length ?sts" "current_event (?sts ! k') = Some (a', n', b)"
    show "dedup_key a' n' \<in> set (K @ [?key]) \<and> b \<le> length U
            \<and> (\<forall>u a'' n'' txt. MessageSent u a'' n'' txt \<in> set ?tr \<and> dedup_key a'' n'' = dedup_key a' n'
                  \<longrightarrow> a'' = a' \<and> n'' = n' \<and> u \<in> set (take b U))"
    proof (cases "k' = k")
      case True
      with k h have e: "a' = a" "n' = n" "b = 0" by simp_all
      have "\<forall>u a'' n'' txt. MessageSent u a'' n'' txt \<in> set ?tr \<and> dedup_key a'' n'' = ?key
                  \<longrightarrow> a'' = a \<and> n'' = n \<and> u \<in> set (take 0 U)"
        using msgs unused by blast
      then show ?thesis unfolding e by simp
    next
      case False
      with h have o: "k' < length sts" "current_event (sts ! k') = Some (a', n', b)" by simp_all
      note theirs = d(6) [OF o]
      from theirs have "dedup_key a' n' \<in> set (K @ [?key])" "b \<le> length U" by simp_all
      moreover from theirs msgs
      have "\<forall>u a'' n'' txt. MessageSent u a'' n'' txt \<in> set ?tr \<and> dedup_key a'' n'' = dedup_key a' n'
                  \<longrightarrow> a'' = a' \<and> n'' = n' \<and> u \<in> set (take b U)" by blast
      ultimately show ?thesis by (intro conjI)
    qed
  qed
  show "\<And>k1 k2 a1 n1 b1 a2 n2 b2. k1 < length ?sts \<Longrightarrow> k2 < length ?sts \<Longrightarrow> k1 \<noteq> k2
            \<Longrightarrow> current_event (?sts ! k1) = Some (a1, n1, b1)
            \<Longrightarrow> current_event (?sts ! k2) = Some (a2, n2, b2) \<Longrightarrow> dedup_key a1 n1 \<noteq> dedup_key a2 n2"
  proof -
    fix k1 k2 a1 n1 b1 a2 n2 b2
    assume h: "k1 < length ?sts" "k2 < length ?sts" "k1 \<noteq> k2"
      "current_event (?sts ! k1) = Some (a1, n1, b1)" "current_event (?sts ! k2) = Some (a2, n2, b2)"
    from h(1,2) have l: "k1 < length sts" "k2 < length sts" by simp_all
    have known: "\<And>k' a' n' b'. k' < length sts \<Longrightarrow> k' \<noteq> k \<Longrightarrow> current_event (sts ! k') = Some (a', n', b')
                   \<Longrightarrow> dedup_key a' n' \<in> set K"
      using d(6) by blast
    show "dedup_key a1 n1 \<noteq> dedup_key a2 n2"
    proof (cases "k1 = k")
      case True
      with k h(4) have e: "a1 = a" "n1 = n" by simp_all
      from True h(3) have "k2 \<noteq> k" by simp
      with h(5) l(2) have "dedup_key a2 n2 \<in> set K" using known by simp
      with new show ?thesis unfolding e by auto
    next
      case False
      with h(4) l(1) have c1: "current_event (sts ! k1) = Some (a1, n1, b1)" by simp
      show ?thesis
      proof (cases "k2 = k")
        case True
        with k h(5) have e: "a2 = a" "n2 = n" by simp_all
        from c1 l(1) False have "dedup_key a1 n1 \<in> set K" using known by simp
        with new show ?thesis unfolding e by auto
      next
        case k2: False
        with h(5) l(2) have c2: "current_event (sts ! k2) = Some (a2, n2, b2)" by simp
        from l h(3) c1 c2 show ?thesis by (rule d(7))
      qed
    qed
  qed
qed


lemma next_event_Some:
  "next_event keys logs = Some (a, n, rest) \<Longrightarrow> dedup_key a n \<notin> set keys \<and> length rest < length logs"
proof (induction keys logs rule: next_event.induct)
  case (1 keys)
  then show ?case by simp
next
  case (2 keys rest')
  then show ?case by auto
next
  case (3 keys addr amount rest')
  then show ?case by (auto simp: set_has_def split: if_splits)
qed

lemma next_log_cases:
  assumes "next_log t logs s = (s', st', acts)"
  shows "(s' = s\<lparr>lastProcessed := t\<rparr> \<and> st' = Done \<and> acts = [])
       \<or> (\<exists>a n rest. dedup_key a n \<notin> set (sentKeys s)
             \<and> s' = s\<lparr>sentKeys := sentKeys s @ [dedup_key a n]\<rparr>
             \<and> st' = AwaitMetadata rest a n
             \<and> acts = [KeyRecorded (dedup_key a n), MetadataFetched a n]
             \<and> length rest < length logs)"
proof (cases "next_event (sentKeys s) logs")
  case None
  with assms show ?thesis by (simp add: next_log_def)
next
  case (Some x)
  obtain a n rest where x: "x = (a, n, rest)" by (cases x)
  from Some x have "dedup_key a n \<notin> set (sentKeys s) \<and> length rest < length logs"
    by (intro next_event_Some) simp
  with assms Some x show ?thesis by (auto simp: next_log_def set_add_def)
qed

lemma next_recipient_Some:
  "next_recipient e i us m = (Some (j, u, l), m') \<Longrightarrow> i \<le> j \<and> j < i + length us \<and> us ! (j - i) = u"
proof (induction us arbitrary: i m)
  case Nil
  then show ?case by simp
next
  case (Cons v us)
  obtain p m1 where g: "getPrefs v m = (p, m1)" by (cases "getPrefs v m")
  show ?case
  proof (cases "requireMediaLink p \<and> \<not> hasMedia e")
    case True
    with Cons.prems g have "next_recipient e (Suc i) us m1 = (Some (j, u, l), m')" by simp
    then have ih: "Suc i \<le> j \<and> j < Suc i + length us \<and> us ! (j - Suc i) = u" by (rule Cons.IH)
    then have "Suc i \<le> j" by simp
    then have "j - i = Suc (j - Suc i)" by arith
    then have "(v # us) ! (j - i) = us ! (j - Suc i)" by simp
    with ih show ?thesis by simp
  next
    case False
    with Cons.prems g show ?thesis by auto
  qed
qed

lemma next_user_cases:
  assumes "next_user t rest a n e i s = (s', st', acts)"
  shows "(\<exists>m j l. s' = s\<lparr>userPushPrefs := m\<rparr>
            \<and> st' = AwaitSend rest a n e j (subscribedUsers s ! j)
            \<and> acts = [MessageSent (subscribedUsers s ! j) a n (message_text l a n e)]
            \<and> i \<le> j \<and> j < length (subscribedUsers s))
       \<or> (\<exists>m. next_log t rest (s\<lparr>userPushPrefs := m\<rparr>) = (s', st', acts))"
proof -
  obtain r m where nr: "next_recipient e i (drop i (subscribedUsers s)) (userPushPrefs s) = (r, m)"
    by (cases "next_recipient e i (drop i (subscribedUsers s)) (userPushPrefs s)")
  show ?thesis
  proof (cases r)
    case None
    with assms nr show ?thesis by (auto simp: next_user_def)
  next
    case (Some x)
    obtain j u l where x: "x = (j, u, l)" by (cases x)
    from nr Some x have "i \<le> j \<and> j < i + length (drop i (subscribedUsers s))
                         \<and> drop i (subscribedUsers s) ! (j - i) = u"
      by (intro next_recipient_Some) simp
    then have j: "i \<le> j" "j < length (subscribedUsers s)" "subscribedUsers s ! j = u"
      by auto
    from assms nr Some x have "s' = s\<lparr>userPushPrefs := m\<rparr>" "st' = AwaitSend rest a n e j u"
      "acts = [MessageSent u a n (message_text l a n e)]"
      by (simp_all add: next_user_def)
    with j show ?thesis by blast
  qed
qed

lemma next_log_dedup:
  assumes inv: "dedup_inv (sentKeys s) (subscribedUsers s) tr sts"
    and k: "k < length sts"
    and nl: "next_log t logs s = (s', st', acts)"
  shows "dedup_inv (sentKeys s') (subscribedUsers s') (tr @ acts) (sts[k := st'])"
proof -
  from next_log_cases [OF nl] show ?thesis
  proof
    assume "s' = s\<lparr>lastProcessed := t\<rparr> \<and> st' = Done \<and> acts = []"
    then have e: "sentKeys s' = sentKeys s" "subscribedUsers s' = subscribedUsers s"
      "st' = Done" "acts = []" by simp_all
    have "dedup_inv (sentKeys s) (subscribedUsers s) tr (sts[k := Done])"
      using inv by (rule dedup_inv_idle) simp
    then show ?thesis unfolding e by simp
  next
    assume "\<exists>a n rest. dedup_key a n \<notin> set (sentKeys s)
             \<and> s' = s\<lparr>sentKeys := sentKeys s @ [dedup_key a n]\<rparr>
             \<and> st' = AwaitMetadata rest a n
             \<and> acts = [KeyRecorded (dedup_key a n), MetadataFetched a n]
             \<and> length rest < length logs"
    then obtain a n rest where new: "dedup_key a n \<notin> set (sentKeys s)"
      and e: "sentKeys s' = sentKeys s @ [dedup_key a n]" "subscribedUsers s' = subscribedUsers s"
        "st' = AwaitMetadata rest a n" "acts = [KeyRecorded (dedup_key a n), MetadataFetched a n]"
      by auto
    show ?thesis unfolding e using inv k new by (rule dedup_inv_record)
  qed
qed

lemma next_user_dedup:
  assumes inv: "dedup_inv (sentKeys s) (subscribedUsers s) tr sts"
    and k: "k < length sts"
    and ev: "current_event (sts ! k) = Some (a, n, b)"
    and b: "b \<le> i"
    and nu: "next_user t rest a n e i s = (s', st', acts)"
  shows "dedup_inv (sentKeys s') (subscribedUsers s') (tr @ acts) (sts[k := st'])"
proof -
  from next_user_cases [OF nu] show ?thesis
  proof
    assume "\<exists>m j l. s' = s\<lparr>userPushPrefs := m\<rparr>
            \<and> st' = AwaitSend rest a n e j (subscribedUsers s ! j)
            \<and> acts = [MessageSent (subscribedUsers s ! j) a n (message_text l a n e)]
            \<and> i \<le> j \<and> j < length (subscribedUsers s)"
    then obtain m j l where e: "sentKeys s' = sentKeys s" "subscribedUsers s' = subscribedUsers s"
        "st' = AwaitSend rest a n e j (subscribedUsers s ! j)"
        "acts = [MessageSent (subscribedUsers s ! j) a n (message_text l a n e)]"
      and j: "i \<le> j" "j < length (subscribedUsers s)"
      by auto
    from b j(1) have bj: "b \<le> j" by simp
    show ?thesis unfolding e using inv k ev bj j(2) by (rule dedup_inv_send)
  next
    assume "\<exists>m. next_log t rest (s\<lparr>userPushPrefs := m\<rparr>) = (s', st', acts)"
    then obtain m where nl: "next_log t rest (s\<lparr>userPushPrefs := m\<rparr>) = (s', st', acts)" by blast
    have "dedup_inv (sentKeys (s\<lparr>userPushPrefs := m\<rparr>)) (subscribedUsers (s\<lparr>userPushPrefs := m\<rparr>)) tr sts"
      using inv by simp
    then show ?thesis using k nl by (rule next_log_dedup)
  qed
qed

lemma resume_dedup:
  assumes inv: "dedup_inv (sentKeys s) (subscribedUsers s) tr sts"
    and k: "k < length sts"
    and re: "resume t (sts ! k) r s = Some (s', st', acts)"
  shows "dedup_inv (sentKeys s') (subscribedUsers s') (tr @ acts) (sts[k := st'])"
proof (cases "sts ! k")
  case AwaitLogs
  show ?thesis
  proof (cases r)
    case (LogsSettled lo)
    show ?thesis
    proof (cases lo)
      case None
      with re AwaitLogs LogsSettled have e: "s' = s" "st' = Failed" "acts = []" by simp_all
      have "dedup_inv (sentKeys s) (subscribedUsers s) tr (sts[k := Failed])"
        using inv by (rule dedup_inv_idle) simp
      then show ?thesis unfolding e by simp
    next
      case (Some logs)
      with re AwaitLogs LogsSettled have "next_log t logs s = (s', st', acts)" by simp
      with inv k show ?thesis by (rule next_log_dedup)
    qed
  next
    case (MetadataSettled c)
    with re AwaitLogs show ?thesis by simp
  next
    case (SendSettled ok now)
    with re AwaitLogs show ?thesis by simp
  qed
next
  case (AwaitMetadata rest a n)
  then have ev: "current_event (sts ! k) = Some (a, n, 0)" by simp
  show ?thesis
  proof (cases r)
    case (LogsSettled lo)
    with re AwaitMetadata show ?thesis by simp
  next
    case (MetadataSettled c)
    with re AwaitMetadata have "next_user t rest a n (enrich c) 0 s = (s', st', acts)" by simp
    with inv k ev show ?thesis by (intro next_user_dedup [where b = 0 and i = 0]) simp_all
  next
    case (SendSettled ok now)
    with re AwaitMetadata show ?thesis by simp
  qed
next
  case (AwaitSend rest a n e i u)
  then have ev: "current_event (sts ! k) = Some (a, n, Suc i)" by simp
  show ?thesis
  proof (cases r)
    case (LogsSettled lo)
    with re AwaitSend show ?thesis by simp
  next
    case (MetadataSettled c)
    with re AwaitSend show ?thesis by simp
  next
    case (SendSettled ok now)
    let ?s0 = "if ok \<and> threshold_truthy (mcUsdThreshold (prefs_object u s))
             then s\<lparr>marketCapAlerts := addToMarketCapAlerts a u now (marketCapAlerts s)\<rparr>
             else s"
    from re AwaitSend SendSettled have nu: "next_user t rest a n e (Suc i) ?s0 = (s', st', acts)"
      by simp
    have inv0: "dedup_inv (sentKeys ?s0) (subscribedUsers ?s0) tr sts" using inv by simp
    from inv0 k ev _ nu show ?thesis by (rule next_user_dedup) simp
  qed
next
  case Done
  with re show ?thesis by simp
next
  case Failed
  with re show ?thesis by simp
qed

lemma map_stage_update:
  "map stage (ts[k := (ts ! k)\<lparr>stage := st\<rparr>]) = (map stage ts)[k := st]"
  by (simp add: map_update)

lemma on_callback_query_frame:
  "sentKeys (on_callback_query i d s) = sentKeys s
   \<and> subscribedUsers (on_callback_query i d s) = subscribedUsers s
   \<and> lastProcessed (on_callback_query i d s) = lastProcessed s"
  by (simp add: on_callback_query_def Let_def split_beta split: option.splits)

lemma on_message_frame:
  "sentKeys (fst (on_message i n now s)) = sentKeys s
   \<and> subscribedUsers (fst (on_message i n now s)) = subscribedUsers s
   \<and> lastProcessed (fst (on_message i n now s)) = lastProcessed s"
  by (simp add: on_message_def Let_def split_beta split: jsnumber.splits)

lemma step_dedup_ok:
  assumes "dedup_ok c"
  shows "dedup_ok (step ev c)"
proof (cases ev)
  case (Block bn)
  obtain s1 nt where b: "block_signal bn (globals c) = (s1, nt)" by (cases "block_signal bn (globals c)")
  then have fr: "sentKeys s1 = sentKeys (globals c)" "subscribedUsers s1 = subscribedUsers (globals c)"
    by (auto simp: block_signal_def Let_def split: if_splits)
  show ?thesis
  proof (cases nt)
    case None
    with assms Block b fr show ?thesis by (simp add: dedup_ok_def)
  next
    case (Some t)
    with b have st: "stage t = AwaitLogs" by (auto simp: block_signal_def Let_def split: if_splits)
    have "dedup_inv (sentKeys (globals c)) (subscribedUsers (globals c)) (trace c)
            (map stage (tasks c) @ [AwaitLogs])"
      using assms unfolding dedup_ok_def by (rule dedup_inv_new_task) simp
    with Block b Some fr st show ?thesis by (simp add: dedup_ok_def)
  qed
next
  case (Settled k r)
  show ?thesis
  proof (cases "k < length (tasks c)")
    case False
    with assms Settled show ?thesis by simp
  next
    case True
    show ?thesis
    proof (cases "resume (toBlock (tasks c ! k)) (stage (tasks c ! k)) r (globals c)")
      case None
      with assms Settled True show ?thesis by simp
    next
      case (Some x)
      obtain s1 st acts where x: "x = (s1, st, acts)" by (cases x)
      have k: "k < length (map stage (tasks c))" using True by simp
      have re: "resume (toBlock (tasks c ! k)) (map stage (tasks c) ! k) r (globals c) = Some (s1, st, acts)"
        using Some x True by simp
      have "dedup_inv (sentKeys s1) (subscribedUsers s1) (trace c @ acts) ((map stage (tasks c))[k := st])"
        using assms k re unfolding dedup_ok_def by (rule resume_dedup)
      with Settled True Some x show ?thesis by (simp add: dedup_ok_def map_stage_update)
    qed
  qed
next
  case (Start i)
  have "dedup_inv (sentKeys (globals c)) (set_add i (subscribedUsers (globals c))) (trace c)
          (map stage (tasks c))"
    using assms unfolding dedup_ok_def by (rule dedup_inv_subscribe)
  with Start show ?thesis by (simp add: dedup_ok_def on_start_def Let_def)
next
  case (Menu i)
  with assms show ?thesis by (simp add: dedup_ok_def on_menu_def)
next
  case (LangCmd i l)
  with assms show ?thesis by (simp add: dedup_ok_def on_lang_def)
next
  case (McStatus i)
  with assms show ?thesis by (simp add: dedup_ok_def on_menu_def)
next
  case (CallbackQuery i d)
  with assms show ?thesis by (simp add: dedup_ok_def on_callback_query_frame)
next
  case (ReplyMessage i n now)
  with assms show ?thesis by (simp add: dedup_ok_def on_message_frame)
next
  case (McTimer now)
  with assms show ?thesis by (simp add: dedup_ok_def)
next
  case (McCheckGoesOn us alerts)
  show ?thesis
  proof (cases "only_alerts alerts")
    case True
    have "dedup_inv (sentKeys (globals c)) (subscribedUsers (globals c)) (trace c @ alerts)
          (map stage (tasks c))"
      using assms True unfolding dedup_ok_def by (rule dedup_inv_alerts)
    with McCheckGoesOn True show ?thesis by (simp add: dedup_ok_def)
  next
    case False
    with assms McCheckGoesOn show ?thesis by simp
  qed
qed

lemma run_dedup_ok: "dedup_ok c \<Longrightarrow> dedup_ok (run sched c)"
proof (induction sched arbitrary: c)
  case Nil
  then show ?case by simp
next
  case (Cons ev sched)
  from Cons.prems have "dedup_ok (step ev c)" by (rule step_dedup_ok)
  then have "dedup_ok (run sched (step ev c))" by (rule Cons.IH)
  then show ?case by simp
qed

lemma init_dedup_ok: "dedup_ok init_config"
  by (simp add: dedup_ok_def dedup_inv_def init_config_def init_state_def messages_to_def)

section \<open>The run of the example\<close>

lemma run_append: "run (a @ b) c = run b (run a c)"
  by (induction a arbitrary: c) simp_all

lemma example_signals_run:
  "run example_signals init_config =
     \<lparr> globals = \<lparr> subscribedUsers = [7], userPushPrefs = [7 \<mapsto> default_prefs],
                   marketCapAlerts = [], lastMcCheck = 0, lastProcessed = 99, sentKeys = [] \<rparr>,
       tasks = [\<lparr> fromBlock = 100, toBlock = 100, stage = AwaitLogs \<rparr>,
                \<lparr> fromBlock = 100, toBlock = 101, stage = AwaitLogs \<rparr>],
       trace = [] \<rparr>"
  by (simp add: example_signals_def init_config_def init_state_def on_start_def block_signal_def
        getPrefs_def set_add_def Let_def)

lemma example_later_cycle_run:
  "run (example_signals @ example_later_cycle) init_config =
     \<lparr> globals = \<lparr> subscribedUsers = [7], userPushPrefs = [7 \<mapsto> default_prefs],
                   marketCapAlerts = [], lastMcCheck = 0, lastProcessed = 101,
                   sentKeys = [dedup_key (lit ''0xA'') 5] \<rparr>,
       tasks = [\<lparr> fromBlock = 100, toBlock = 100, stage = AwaitLogs \<rparr>,
                \<lparr> fromBlock = 100, toBlock = 101, stage = Done \<rparr>],
       trace = [KeyRecorded (dedup_key (lit ''0xA'') 5), MetadataFetched (lit ''0xA'') 5,
                MessageSent 7 (lit ''0xA'') 5 (message_text En (lit ''0xA'') 5 (enrich no_metadata))] \<rparr>"
  unfolding run_append example_signals_run
  by (simp add: example_later_cycle_def next_log_def next_user_def set_has_def set_add_def
        getPrefs_def default_prefs_def prefs_object_def threshold_truthy_def)

lemma example_run_end:
  "run example_run init_config =
     \<lparr> globals = \<lparr> subscribedUsers = [7], userPushPrefs = [7 \<mapsto> default_prefs],
                   marketCapAlerts = [], lastMcCheck = 0, lastProcessed = 100,
                   sentKeys = [dedup_key (lit ''0xA'') 5] \<rparr>,
       tasks = [\<lparr> fromBlock = 100, toBlock = 100, stage = Done \<rparr>,
                \<lparr> fromBlock = 100, toBlock = 101, stage = Done \<rparr>],
       trace = [KeyRecorded (dedup_key (lit ''0xA'') 5), MetadataFetched (lit ''0xA'') 5,
                MessageSent 7 (lit ''0xA'') 5 (message_text En (lit ''0xA'') 5 (enrich no_metadata))] \<rparr>"
proof -
  have "run example_run init_config
        = run [Settled 0 (LogsSettled (Some [Some (lit ''0xA'', 5)]))]
            (run (example_signals @ example_later_cycle) init_config)"
    by (simp add: example_run_def run_append)
  then show ?thesis
    unfolding example_later_cycle_run
    by (simp add: next_log_def set_has_def)
qed

text \<open>
  Claim C1. In every run of the bot from its start, the cycles of the block listener
  overlapping each other and the other handlers in any order, whatever the block signals
  and whatever logs each query returns (the same log to several cycles included): a fetch
  or a message for an event comes only after the key of the event was recorded; no key is
  recorded twice, and the dedup set is exactly the keys recorded; a log whose key is in
  the set is skipped with no effect; and no subscriber is sent the same (address, amount)
  pair twice.
\<close>

theorem no_redelivery:
  assumes "run sched init_config = c"
  shows "(\<forall>i k. i < length (trace c) \<and> uses_key (trace c ! i) = Some k \<longrightarrow>
            KeyRecorded k \<in> set (take i (trace c)))
       \<and> distinct (recorded_keys (trace c))
       \<and> set (sentKeys (globals c)) = set (recorded_keys (trace c))
       \<and> (\<forall>to_block logs addr amount. set_has (sentKeys (globals c)) (dedup_key addr amount) \<longrightarrow>
            next_log to_block (Some (addr, amount) # logs) (globals c)
              = next_log to_block logs (globals c))
       \<and> (\<forall>u addr amount. messages_to u addr amount (trace c) \<le> 1)"
proof -
  have "dedup_ok (run sched init_config)" using init_dedup_ok by (rule run_dedup_ok)
  with assms have ok: "dedup_inv (sentKeys (globals c)) (subscribedUsers (globals c)) (trace c)
                  (map stage (tasks c))" by (simp add: dedup_ok_def)
  note d = dedup_inv_D [OF ok]
  have a: "\<forall>i k. i < length (trace c) \<and> uses_key (trace c ! i) = Some k \<longrightarrow>
            KeyRecorded k \<in> set (take i (trace c))"
    using keys_first_index [OF d(4)] by auto
  have e: "\<forall>u addr amount. messages_to u addr amount (trace c) \<le> 1" using d(5) by blast
  have s: "\<forall>to_block logs addr amount. set_has (sentKeys (globals c)) (dedup_key addr amount) \<longrightarrow>
            next_log to_block (Some (addr, amount) # logs) (globals c)
              = next_log to_block logs (globals c)"
    by (simp add: next_log_def)
  from a d(2,3) s e show ?thesis by (intro conjI)
qed

theorem no_redelivery_witness:
  "recorded_keys (trace (run example_run init_config)) = [dedup_key (lit ''0xA'') 5]
   \<and> uses_key (trace (run example_run init_config) ! 2) = Some (dedup_key (lit ''0xA'') 5)
   \<and> KeyRecorded (dedup_key (lit ''0xA'') 5) \<in> set (take 2 (trace (run example_run init_config)))
   \<and> set_has (sentKeys (globals (run example_run init_config))) (dedup_key (lit ''0xA'') 5)
   \<and> next_log 102 [Some (lit ''0xA'', 5)] (globals (run example_run init_config))
       = next_log 102 [] (globals (run example_run init_config))
   \<and> messages_to 7 (lit ''0xA'') 5 (trace (run example_run init_config)) = 1"
proof -
  let ?c = "run example_run init_config"
  note t = no_redelivery [of example_run ?c, OF refl]
  have e1: "recorded_keys (trace ?c) = [dedup_key (lit ''0xA'') 5]"
    and e2: "uses_key (trace ?c ! 2) = Some (dedup_key (lit ''0xA'') 5)"
    and e4: "set_has (sentKeys (globals ?c)) (dedup_key (lit ''0xA'') 5)"
    and e5: "messages_to 7 (lit ''0xA'') 5 (trace ?c) = 1"
    and e6: "(2::nat) < length (trace ?c)"
    by (simp_all add: example_run_end messages_to_def set_has_def)
  from t e6 e2 have "KeyRecorded (dedup_key (lit ''0xA'') 5) \<in> set (take 2 (trace ?c))" by blast
  moreover from t e4 have "next_log 102 [Some (lit ''0xA'', 5)] (globals ?c) = next_log 102 [] (globals ?c)"
    by blast
  ultimately show ?thesis using e1 e2 e4 e5 by (intro conjI)
qed

section \<open>The cursor, with cycles overlapping\<close>
































section \<open>A market-cap check that runs undisturbed\<close>

text \<open>
  A check with nothing else running between its awaits is two steps of a run: the alerts
  and the visits of \<open>McCheckGoesOn\<close> can be those \<open>checkMarketCapAlerts\<close> computes.
\<close>

lemma alert_user_only_alerts: "only_alerts (snd (alert_user t c cap v m))"
  by (simp add: alert_user_def only_alerts_def split_beta split: option.splits)

lemma alert_users_only_alerts: "only_alerts (snd (alert_users t c cap vs m))"
proof (induction vs arbitrary: m)
  case Nil
  then show ?case by (simp add: only_alerts_def)
next
  case (Cons v vs)
  show ?case
    using alert_user_only_alerts [of t c cap v m]
      Cons.IH [of "fst (alert_user t c cap v m)"]
    by (simp add: split_beta Let_def only_alerts_append)
qed

lemma check_tokens_only_alerts: "only_alerts (snd (check_tokens env reg m))"
proof (induction reg arbitrary: m)
  case Nil
  then show ?case by (simp add: only_alerts_def)
next
  case (Cons td reg)
  obtain t d where td: "td = (t, d)" by (cases td)
  show ?case
  proof (cases "marketCapUSD (env t)")
    case None
    with Cons.IH [of m] td show ?thesis by simp
  next
    case (Some cap)
    show ?thesis
      using alert_users_only_alerts [of t "env t" cap "users d" m]
        Cons.IH [of "fst (alert_users t (env t) cap (users d) m)"] Some td
      by (simp add: split_beta Let_def only_alerts_append)
  qed
qed

lemma alert_user_visits: "fst (alert_user t c cap v m) = snd (getPrefs v m)"
  by (simp add: alert_user_def split_beta split: option.splits)

lemma alert_users_visits:
  "fst (alert_users t c cap vs m) = fold (\<lambda>v m. snd (getPrefs v m)) vs m"
proof (induction vs arbitrary: m)
  case Nil
  then show ?case by simp
next
  case (Cons v vs)
  show ?case
    using Cons.IH [of "fst (alert_user t c cap v m)"]
    by (simp add: split_beta Let_def alert_user_visits)
qed

lemma check_tokens_visits:
  "\<exists>vs. fst (check_tokens env reg m) = fold (\<lambda>v m. snd (getPrefs v m)) vs m"
proof (induction reg arbitrary: m)
  case Nil
  have "fst (check_tokens env [] m) = fold (\<lambda>v m. snd (getPrefs v m)) [] m" by simp
  then show ?case by blast
next
  case (Cons td reg)
  obtain t d where td: "td = (t, d)" by (cases td)
  show ?case
  proof (cases "marketCapUSD (env t)")
    case None
    with Cons.IH [of m] td show ?thesis by simp
  next
    case (Some cap)
    let ?m1 = "fst (alert_users t (env t) cap (users d) m)"
    from Cons.IH [of ?m1] obtain vs where
      vs: "fst (check_tokens env reg ?m1) = fold (\<lambda>v m. snd (getPrefs v m)) vs ?m1" by blast
    have "fst (check_tokens env (td # reg) m) = fold (\<lambda>v m. snd (getPrefs v m)) (users d @ vs) m"
      using vs Some td by (simp add: split_beta Let_def alert_users_visits)
    then show ?thesis by blast
  qed
qed

lemma check_alone:
  "\<exists>vs. run [McTimer now, McCheckGoesOn vs (snd (checkMarketCapAlerts now env (globals c)))] c
          = c\<lparr>globals := fst (checkMarketCapAlerts now env (globals c)),
              trace := trace c @ snd (checkMarketCapAlerts now env (globals c))\<rparr>"
proof (cases "now - lastMcCheck (globals c) < MC_CHECK_INTERVAL")
  case True
  then have "run [McTimer now, McCheckGoesOn [] (snd (checkMarketCapAlerts now env (globals c)))] c
          = c\<lparr>globals := fst (checkMarketCapAlerts now env (globals c)),
              trace := trace c @ snd (checkMarketCapAlerts now env (globals c))\<rparr>"
    by (simp add: checkMarketCapAlerts_def only_alerts_def)
  then show ?thesis by blast
next
  case False
  let ?ct = "check_tokens env (marketCapAlerts (globals c)) (userPushPrefs (globals c))"
  obtain vs where vs: "fst ?ct = fold (\<lambda>v m. snd (getPrefs v m)) vs (userPushPrefs (globals c))"
    using check_tokens_visits by blast
  have oa: "only_alerts (snd ?ct)" by (rule check_tokens_only_alerts)
  have r: "checkMarketCapAlerts now env (globals c)
           = ((globals c)\<lparr>lastMcCheck := now, userPushPrefs := fst ?ct\<rparr>, snd ?ct)"
    using False by (simp add: checkMarketCapAlerts_def Let_def split_beta)
  have "run [McTimer now, McCheckGoesOn vs (snd (checkMarketCapAlerts now env (globals c)))] c
          = c\<lparr>globals := fst (checkMarketCapAlerts now env (globals c)),
              trace := trace c @ snd (checkMarketCapAlerts now env (globals c))\<rparr>"
    unfolding r using False oa vs by simp
  then show ?thesis by blast
qed

section \<open>A cycle that runs undisturbed\<close>

text \<open>
  With nothing else running between its awaits, a cycle over a batch of one log does what
  \<open>process_log\<close> does and then stores its height: the fan-out of the cycle, send by
  send, is \<open>fanout\<close>.
\<close>

lemma getPrefs_stored: "getPrefs u m = (p, m1) \<Longrightarrow> m1 u = Some p"
  by (auto simp: getPrefs_def split: option.splits)

lemma run_to_end_Done:
  "k < length (tasks c) \<Longrightarrow> stage (tasks c ! k) = Done \<Longrightarrow> run_to_end fuel k meta sent now c = c"
  by (cases fuel) simp_all

lemma fanout_alone:
  assumes "k < length (tasks c)"
    and "drop i (subscribedUsers (globals c)) = us"
    and "next_user (toBlock (tasks c ! k)) [] a n e i (globals c) = (s1, st1, a1)"
    and "length us \<le> fuel"
  shows "run_to_end fuel k meta sent now
           (c\<lparr>globals := s1, tasks := (tasks c)[k := (tasks c ! k)\<lparr>stage := st1\<rparr>],
              trace := trace c @ a1\<rparr>)
         = c\<lparr>globals := (fst (fanout a n e (\<lambda>u. sent u a n) now us (globals c)))
                           \<lparr>lastProcessed := toBlock (tasks c ! k)\<rparr>,
             tasks := (tasks c)[k := (tasks c ! k)\<lparr>stage := Done\<rparr>],
             trace := trace c @ snd (fanout a n e (\<lambda>u. sent u a n) now us (globals c))\<rparr>"
  using assms
proof (induction us arbitrary: c i s1 st1 a1 fuel)
  case Nil
  from Nil.prems(2,3) have e: "s1 = (globals c)\<lparr>lastProcessed := toBlock (tasks c ! k)\<rparr>"
      "st1 = Done" "a1 = []"
    by (simp_all add: next_user_def next_log_def)
  let ?c1 = "c\<lparr>globals := s1, tasks := (tasks c)[k := (tasks c ! k)\<lparr>stage := st1\<rparr>],
              trace := trace c @ a1\<rparr>"
  have "run_to_end fuel k meta sent now ?c1 = ?c1"
    using Nil.prems(1) e by (intro run_to_end_Done) simp_all
  then show ?case unfolding e by simp
next
  case (Cons u rest)
  let ?s = "globals c"
  let ?t = "toBlock (tasks c ! k)"
  obtain p m1 where g: "getPrefs u (userPushPrefs ?s) = (p, m1)"
    by (cases "getPrefs u (userPushPrefs ?s)")
  from Cons.prems(2) have dr: "drop (Suc i) (subscribedUsers ?s) = rest"
    by (metis drop_Suc list.sel(3) tl_drop)
  let ?s1 = "?s\<lparr>userPushPrefs := m1\<rparr>"
  show ?case
  proof (cases "requireMediaLink p \<and> \<not> hasMedia e")
    case True
    let ?c' = "c\<lparr>globals := ?s1\<rparr>"
    have nu: "next_user (toBlock (tasks ?c' ! k)) [] a n e (Suc i) (globals ?c') = (s1, st1, a1)"
      using Cons.prems(2,3) g True dr
      by (auto simp: next_user_def split: prod.splits option.splits)
    have k': "k < length (tasks ?c')" using Cons.prems(1) by simp
    have dr': "drop (Suc i) (subscribedUsers (globals ?c')) = rest" using dr by simp
    have fu: "length rest \<le> fuel" using Cons.prems(4) by simp
    note ih = Cons.IH [OF k' dr' nu fu]
    have pu: "push_to_user a n e (\<lambda>u. sent u a n) now u ?s = (?s1, [])"
      using g True by (simp add: push_to_user_def)
    from ih pu show ?thesis by (simp add: split_beta)
  next
    case False
    let ?msg = "MessageSent u a n (message_text (lang p) a n e)"
    from Cons.prems(2,3) g False have e: "s1 = ?s1" "st1 = AwaitSend [] a n e i u" "a1 = [?msg]"
      by (simp_all add: next_user_def)
    let ?c1 = "c\<lparr>globals := s1, tasks := (tasks c)[k := (tasks c ! k)\<lparr>stage := st1\<rparr>],
              trace := trace c @ a1\<rparr>"
    from Cons.prems(4) obtain f where f: "fuel = Suc f" "length rest \<le> f" by (cases fuel) auto
    let ?se = "if sent u a n \<and> threshold_truthy (mcUsdThreshold p)
               then ?s1\<lparr>marketCapAlerts := addToMarketCapAlerts a u now (marketCapAlerts ?s1)\<rparr>
               else ?s1"
    have po: "prefs_object u ?s1 = p" using getPrefs_stored [OF g] by (simp add: prefs_object_def)
    have pu: "push_to_user a n e (\<lambda>u. sent u a n) now u ?s = (?se, [?msg])"
      using g False by (simp add: push_to_user_def Let_def)
    obtain s2 st2 a2 where nu2: "next_user ?t [] a n e (Suc i) ?se = (s2, st2, a2)"
      by (cases "next_user ?t [] a n e (Suc i) ?se") auto
    let ?c' = "c\<lparr>globals := ?se, trace := trace c @ [?msg]\<rparr>"
    have stp: "step (Settled k (SendSettled (sent u a n) now)) ?c1
               = ?c'\<lparr>globals := s2, tasks := (tasks ?c')[k := (tasks ?c' ! k)\<lparr>stage := st2\<rparr>],
                     trace := trace ?c' @ a2\<rparr>"
      using Cons.prems(1) nu2 po unfolding e by simp
    have un: "run_to_end fuel k meta sent now ?c1
              = run_to_end f k meta sent now (step (Settled k (SendSettled (sent u a n) now)) ?c1)"
      unfolding f(1) e using Cons.prems(1) by simp
    have k': "k < length (tasks ?c')" using Cons.prems(1) by simp
    have dr': "drop (Suc i) (subscribedUsers (globals ?c')) = rest" using dr by simp
    have nu': "next_user (toBlock (tasks ?c' ! k)) [] a n e (Suc i) (globals ?c') = (s2, st2, a2)"
      using nu2 by simp
    note ih = Cons.IH [OF k' dr' nu' f(2)]
    show ?thesis
      unfolding un stp ih using pu by (simp add: split_beta)
  qed
qed

lemma process_log_alone:
  assumes k: "k < length (tasks c)" and st: "stage (tasks c ! k) = AwaitLogs"
  shows "run_to_end (Suc (length (subscribedUsers (globals c)))) k
           (\<lambda>a n. calls l) (\<lambda>u a n. sendMessage_ok l u) now
           (step (Settled k (LogsSettled (Some [parseLog l]))) c)
         = c\<lparr>globals := (fst (process_log now l (globals c)))\<lparr>lastProcessed := toBlock (tasks c ! k)\<rparr>,
             tasks := (tasks c)[k := (tasks c ! k)\<lparr>stage := Done\<rparr>],
             trace := trace c @ snd (process_log now l (globals c))\<rparr>"
proof -
  let ?s = "globals c"
  let ?t = "toBlock (tasks c ! k)"
  let ?N = "length (subscribedUsers ?s)"
  let ?c1 = "step (Settled k (LogsSettled (Some [parseLog l]))) c"
  have skipped: "next_event (sentKeys ?s) [parseLog l] = None \<Longrightarrow> process_log now l ?s = (?s, [])"
    by (cases "parseLog l") (auto simp: process_log_def split: if_splits)
  show ?thesis
  proof (cases "next_event (sentKeys ?s) [parseLog l]")
    case None
    then have c1: "?c1 = c\<lparr>globals := ?s\<lparr>lastProcessed := ?t\<rparr>,
                          tasks := (tasks c)[k := (tasks c ! k)\<lparr>stage := Done\<rparr>],
                          trace := trace c @ []\<rparr>"
      using k st by (simp add: next_log_def)
    have "run_to_end (Suc ?N) k (\<lambda>a n. calls l) (\<lambda>u a n. sendMessage_ok l u) now ?c1 = ?c1"
      unfolding c1 using k by (intro run_to_end_Done) simp_all
    with c1 skipped [OF None] show ?thesis by simp
  next
    case (Some x)
    then obtain a n where pl: "parseLog l = Some (a, n)"
      and new: "\<not> set_has (sentKeys ?s) (dedup_key a n)"
      by (cases "parseLog l") (auto split: if_splits)
    let ?key = "dedup_key a n"
    let ?s1 = "?s\<lparr>sentKeys := set_add ?key (sentKeys ?s)\<rparr>"
    let ?c' = "c\<lparr>globals := ?s1, tasks := (tasks c)[k := (tasks c ! k)\<lparr>stage := AwaitMetadata [] a n\<rparr>],
                  trace := trace c @ [KeyRecorded ?key, MetadataFetched a n]\<rparr>"
    have c1: "?c1 = ?c'" using k st pl new by (simp add: next_log_def)
    obtain s2 st2 a2 where nu: "next_user ?t [] a n (enrich (calls l)) 0 ?s1 = (s2, st2, a2)"
      by (cases "next_user ?t [] a n (enrich (calls l)) 0 ?s1") auto
    have stp: "step (Settled k (MetadataSettled (calls l))) ?c'
               = ?c'\<lparr>globals := s2, tasks := (tasks ?c')[k := (tasks ?c' ! k)\<lparr>stage := st2\<rparr>],
                     trace := trace ?c' @ a2\<rparr>"
      using k nu by simp
    have un: "run_to_end (Suc ?N) k (\<lambda>a n. calls l) (\<lambda>u a n. sendMessage_ok l u) now ?c'
              = run_to_end ?N k (\<lambda>a n. calls l) (\<lambda>u a n. sendMessage_ok l u) now
                  (step (Settled k (MetadataSettled (calls l))) ?c')"
      using k by simp
    have k': "k < length (tasks ?c')" using k by simp
    have dr: "drop 0 (subscribedUsers (globals ?c')) = subscribedUsers ?s" by simp
    have nu': "next_user (toBlock (tasks ?c' ! k)) [] a n (enrich (calls l)) 0 (globals ?c') = (s2, st2, a2)"
      using nu k by simp
    have fu: "length (subscribedUsers ?s) \<le> ?N" by simp
    note fa = fanout_alone [OF k' dr nu' fu, of "\<lambda>a n. calls l" "\<lambda>u a n. sendMessage_ok l u" now]
    have pr: "process_log now l ?s
              = (fst (fanout a n (enrich (calls l)) (sendMessage_ok l) now (subscribedUsers ?s) ?s1),
                 KeyRecorded ?key # MetadataFetched a n
                   # snd (fanout a n (enrich (calls l)) (sendMessage_ok l) now (subscribedUsers ?s) ?s1))"
      using pl new by (simp add: process_log_def Let_def split_beta)
    show ?thesis
      unfolding c1 un stp fa pr using k by simp
  qed
qed

section \<open>The market-cap check throttles itself\<close>


lemma checkMarketCapAlerts_early:
  "now - lastMcCheck s < MC_CHECK_INTERVAL \<Longrightarrow> checkMarketCapAlerts now env s = (s, [])"
  by (simp add: checkMarketCapAlerts_def)


section \<open>Rounding to a double\<close>

lemma pow2_powi: "pow2 e = 2 powi e"
  by (simp add: pow2_def power_int_def field_simps)

lemma pow2_pos: "0 < pow2 e"
  by (simp add: pow2_powi)

lemma pow2_add: "pow2 (a + b) = pow2 a * pow2 b"
  by (simp add: pow2_powi power_int_add)


lemma pow2_Suc: "pow2 (e + 1) = 2 * pow2 e"
  by (simp add: pow2_powi power_int_add)

lemma pow2_strict_mono: "a < b \<Longrightarrow> pow2 a < pow2 b"
  by (simp add: pow2_powi power_int_strict_increasing)

lemma pow2_mono: "a \<le> b \<Longrightarrow> pow2 a \<le> pow2 b"
  by (simp add: pow2_powi power_int_increasing)

lemma pow2_nat: "pow2 (int n) = 2 ^ n"
  by (simp add: pow2_def)

lemma floor_log2_unique:
  assumes "pow2 e \<le> x" "x < pow2 (e + 1)" "pow2 e' \<le> x" "x < pow2 (e' + 1)"
  shows "e = e'"
proof (rule ccontr)
  assume "e \<noteq> e'"
  then consider "e + 1 \<le> e'" | "e' + 1 \<le> e" by linarith
  then show False
  proof cases
    case 1
    then have "pow2 (e + 1) \<le> pow2 e'" by (rule pow2_mono)
    with assms show False by linarith
  next
    case 2
    then have "pow2 (e' + 1) \<le> pow2 e" by (rule pow2_mono)
    with assms show False by linarith
  qed
qed

lemma floor_log2_bounds:
  assumes "0 < x"
  shows "pow2 (floor_log2 x) \<le> x \<and> x < pow2 (floor_log2 x + 1)"
proof -
  obtain p q where pq: "quotient_of x = (p, q)" by (cases "quotient_of x")
  then have q: "0 < q" by (rule quotient_of_denom_pos)
  have x: "x = of_int p / of_int q" using pq by (rule quotient_of_div)
  with assms q have p: "0 < p" by (simp add: zero_less_divide_iff)
  define bp where "bp = bitlen p"
  define bq where "bq = bitlen q"
  have bp1: "1 \<le> bp" using p by (simp add: bp_def bitlen_alt_def)
  have bq1: "1 \<le> bq" using q by (simp add: bq_def bitlen_alt_def)
  from bitlen_bounds [OF p] have "2 ^ nat (bp - 1) \<le> p" "p < 2 ^ nat bp" by (simp_all add: bp_def)
  then have "(of_int (2 ^ nat (bp - 1)) :: rat) \<le> of_int p" "(of_int p :: rat) < of_int (2 ^ nat bp)"
    by (simp_all only: of_int_le_iff of_int_less_iff)
  then have P: "pow2 (bp - 1) \<le> of_int p" "of_int p < pow2 bp"
    using bp1 by (simp_all add: pow2_def)
  from bitlen_bounds [OF q] have "2 ^ nat (bq - 1) \<le> q" "q < 2 ^ nat bq" by (simp_all add: bq_def)
  then have "(of_int (2 ^ nat (bq - 1)) :: rat) \<le> of_int q" "(of_int q :: rat) < of_int (2 ^ nat bq)"
    by (simp_all only: of_int_le_iff of_int_less_iff)
  then have Q: "pow2 (bq - 1) \<le> of_int q" "of_int q < pow2 bq"
    using bq1 by (simp_all add: pow2_def)
  have qpos: "(0::rat) < of_int q" using q by simp
  have up: "x < pow2 (bp - bq + 1)"
  proof -
    have "of_int p < pow2 bp" by (rule P)
    also have "pow2 bp = pow2 (bp - bq + 1) * pow2 (bq - 1)" by (simp flip: pow2_add)
    also have "\<dots> \<le> pow2 (bp - bq + 1) * of_int q"
      using Q(1) pow2_pos [of "bp - bq + 1"] by (simp add: mult_left_mono)
    finally show ?thesis using qpos by (simp add: x pos_divide_less_eq)
  qed
  have lo: "pow2 (bp - bq - 1) \<le> x"
  proof -
    have "pow2 (bp - bq - 1) * of_int q \<le> pow2 (bp - bq - 1) * pow2 bq"
      using Q(2) pow2_pos [of "bp - bq - 1"] by (simp add: mult_left_mono)
    also have "\<dots> = pow2 (bp - 1)" by (simp flip: pow2_add)
    also have "\<dots> \<le> of_int p" by (rule P)
    finally show ?thesis using qpos by (simp add: x pos_le_divide_eq)
  qed
  have fl: "floor_log2 x = (if pow2 (bp - bq) \<le> x then bp - bq else bp - bq - 1)"
    by (simp add: floor_log2_def pq bp_def bq_def Let_def)
  show ?thesis
  proof (cases "pow2 (bp - bq) \<le> x")
    case True
    with fl up show ?thesis by simp
  next
    case False
    with fl lo show ?thesis by simp
  qed
qed

lemma floor_log2_eq:
  assumes "pow2 e \<le> x" "x < pow2 (e + 1)"
  shows "floor_log2 x = e"
proof -
  have "0 < x" using assms(1) pow2_pos [of e] by linarith
  from floor_log2_bounds [OF this] assms show ?thesis
    by (meson floor_log2_unique)
qed

lemma round_half_even_error: "\<bar>of_int (round_half_even q) - q\<bar> \<le> 1 / 2"
proof -
  define f where "f = \<lfloor>q\<rfloor>"
  have b: "of_int f \<le> q" "q < of_int f + 1" unfolding f_def by linarith+
  have r: "round_half_even q = f \<and> q - of_int f \<le> 1 / 2
         \<or> round_half_even q = f + 1 \<and> 1 / 2 \<le> q - of_int f"
    unfolding round_half_even_def Let_def f_def [symmetric] by auto
  then show ?thesis
  proof
    assume "round_half_even q = f \<and> q - of_int f \<le> 1 / 2"
    with b show ?thesis by (simp add: abs_if)
  next
    assume "round_half_even q = f + 1 \<and> 1 / 2 \<le> q - of_int f"
    with b show ?thesis by (simp add: abs_if)
  qed
qed

lemma round_half_even_int: "round_half_even (of_int n) = n"
  by (simp add: round_half_even_def)

lemma round_half_even_mono: "of_int n \<le> q \<Longrightarrow> n \<le> round_half_even q"
proof -
  assume "of_int n \<le> q"
  then have "n \<le> \<lfloor>q\<rfloor>" by (simp add: le_floor_iff)
  then show ?thesis by (auto simp: round_half_even_def Let_def)
qed

lemma round_half_even_le: "q \<le> of_int n \<Longrightarrow> round_half_even q \<le> n"
proof -
  assume a: "q \<le> of_int n"
  show ?thesis
  proof (cases "q = of_int n")
    case True
    then show ?thesis by (simp add: round_half_even_int)
  next
    case False
    with a have "q < of_int n" by simp
    then have "\<lfloor>q\<rfloor> < n" by (simp add: floor_less_iff)
    then show ?thesis by (auto simp: round_half_even_def Let_def)
  qed
qed

lemma pow2_split52: "pow2 e = 2 ^ 52 * pow2 (e - 52)"
proof -
  have c: "pow2 52 = 2 ^ 52" by (simp add: pow2_def)
  have "e = 52 + (e - 52)" by simp
  then have "pow2 e = pow2 (52 + (e - 52))" by (rule arg_cong)
  also have "\<dots> = pow2 52 * pow2 (e - 52)" by (rule pow2_add)
  finally show ?thesis by (simp only: c)
qed

lemma pow2_split53: "pow2 (e + 1) = 2 ^ 53 * pow2 (e - 52)"
proof -
  have c: "pow2 53 = 2 ^ 53" by (simp add: pow2_def)
  have "e + 1 = 53 + (e - 52)" by simp
  then have "pow2 (e + 1) = pow2 (53 + (e - 52))" by (rule arg_cong)
  also have "\<dots> = pow2 53 * pow2 (e - 52)" by (rule pow2_add)
  finally show ?thesis by (simp only: c)
qed

lemma to_double_normal:
  assumes "pow2 e \<le> x" "x < pow2 (e + 1)" "- 1022 \<le> e"
  shows "to_double x =
     (let y = of_int (round_half_even (x / pow2 (e - 52))) * pow2 (e - 52)
      in if pow2 1024 \<le> y then PosInfinity else Finite y)"
proof -
  have x: "0 < x" using assms(1) pow2_pos [of e] by linarith
  have fl: "floor_log2 x = e" using assms(1,2) by (rule floor_log2_eq)
  have "max e (- 1022) = e" using assms(3) by simp
  with x fl show ?thesis by (simp add: to_double_def Let_def abs_if)
qed

lemma mantissa_bounds:
  assumes "pow2 e \<le> x" "x < pow2 (e + 1)"
  shows "2 ^ 52 \<le> round_half_even (x / pow2 (e - 52))"
    and "round_half_even (x / pow2 (e - 52)) \<le> 2 ^ 53"
proof -
  have u: "0 < pow2 (e - 52)" by (rule pow2_pos)
  have a: "pow2 e = 2 ^ 52 * pow2 (e - 52)" by (rule pow2_split52)
  have b: "pow2 (e + 1) = 2 ^ 53 * pow2 (e - 52)" by (rule pow2_split53)
  have "2 ^ 52 \<le> x / pow2 (e - 52)" using assms(1) u a by (simp add: pos_le_divide_eq)
  then have "rat_of_int (2 ^ 52) \<le> x / pow2 (e - 52)" by simp
  then show "2 ^ 52 \<le> round_half_even (x / pow2 (e - 52))" by (rule round_half_even_mono)
  have "x / pow2 (e - 52) \<le> 2 ^ 53" using assms(2) u b by (simp add: pos_divide_le_eq)
  then have "x / pow2 (e - 52) \<le> rat_of_int (2 ^ 53)" by simp
  then show "round_half_even (x / pow2 (e - 52)) \<le> 2 ^ 53" by (rule round_half_even_le)
qed

lemma to_double_eval:
  assumes "pow2 e \<le> x" "x < pow2 (e + 1)" "- 1022 \<le> e" "e \<le> 1022"
  shows "to_double x = Finite (of_int (round_half_even (x / pow2 (e - 52))) * pow2 (e - 52))"
proof -
  let ?m = "round_half_even (x / pow2 (e - 52))"
  have "?m \<le> 2 ^ 53" using assms(1,2) by (rule mantissa_bounds)
  then have "rat_of_int ?m \<le> rat_of_int (2 ^ 53)" by (simp only: of_int_le_iff)
  then have "of_int ?m * pow2 (e - 52) \<le> 2 ^ 53 * pow2 (e - 52)"
    using pow2_pos [of "e - 52"] by (simp add: mult_right_mono)
  also have "\<dots> = pow2 (e + 1)" by (simp only: pow2_split53 [symmetric])
  also have "\<dots> < pow2 1024" using assms(4) by (intro pow2_strict_mono) simp
  finally have "\<not> pow2 1024 \<le> of_int ?m * pow2 (e - 52)" by simp
  then show ?thesis using to_double_normal [OF assms(1,2,3)] by (simp add: Let_def)
qed

lemma to_double_exact:
  assumes "pow2 e \<le> x" "x < pow2 (e + 1)" "- 1022 \<le> e" "e \<le> 1022"
    and "x = of_int m * pow2 (e - 52)"
  shows "to_double x = Finite x"
proof -
  have "x / pow2 (e - 52) = of_int m" using assms(5) pow2_pos [of "e - 52"] by simp
  then have "round_half_even (x / pow2 (e - 52)) = m" by (simp add: round_half_even_int)
  then show ?thesis using to_double_eval [OF assms(1-4)] assms(5) by simp
qed

lemma to_double_scale:
  assumes "pow2 e \<le> x" "x < pow2 (e + 1)" "- 1022 \<le> e" "e \<le> 1022"
    and "- 1022 \<le> e + k" "e + k \<le> 1022" and "to_double x = Finite y"
  shows "to_double (x * pow2 k) = Finite (y * pow2 k)"
proof -
  have p: "0 < pow2 k" by (rule pow2_pos)
  have a: "pow2 (e + k) \<le> x * pow2 k" using assms(1) p by (simp add: pow2_add)
  have "x * pow2 k < pow2 (e + 1) * pow2 k" using assms(2) p by simp
  then have b: "x * pow2 k < pow2 (e + k + 1)" by (simp add: pow2_add mult.commute mult.left_commute)
  have u: "pow2 (e + k - 52) = pow2 (e - 52) * pow2 k"
    using pow2_add [of "e - 52" k] by (simp add: algebra_simps)
  have q: "x * pow2 k / pow2 (e + k - 52) = x / pow2 (e - 52)"
    using p by (simp add: u)
  have "y = of_int (round_half_even (x / pow2 (e - 52))) * pow2 (e - 52)"
    using to_double_eval [OF assms(1-4)] assms(7) by simp
  then show ?thesis using to_double_eval [OF a b assms(5,6)] by (simp add: q u)
qed

lemma to_double_error:
  assumes "pow2 e \<le> x" "x < pow2 (e + 1)" "- 1022 \<le> e" "e \<le> 1022"
  shows "\<exists>y. to_double x = Finite y \<and> \<bar>y - x\<bar> \<le> x / 2 ^ 53 \<and> pow2 e \<le> y \<and> y \<le> pow2 (e + 1)"
proof -
  let ?u = "pow2 (e - 52)"
  let ?m = "round_half_even (x / ?u)"
  let ?y = "of_int ?m * ?u"
  have u: "0 < ?u" by (rule pow2_pos)
  have e: "to_double x = Finite ?y" using assms by (rule to_double_eval)
  have "\<bar>of_int ?m - x / ?u\<bar> \<le> 1 / 2" by (rule round_half_even_error)
  then have "\<bar>of_int ?m - x / ?u\<bar> * ?u \<le> 1 / 2 * ?u" using u by (simp only: mult_le_cancel_right_pos)
  moreover have "\<bar>of_int ?m - x / ?u\<bar> * ?u = \<bar>?y - x\<bar>"
  proof -
    have "\<bar>of_int ?m - x / ?u\<bar> * ?u = \<bar>(of_int ?m - x / ?u) * ?u\<bar>" using u by (simp add: abs_mult)
    also have "(of_int ?m - x / ?u) * ?u = ?y - x" using u by (simp add: algebra_simps)
    finally show ?thesis .
  qed
  ultimately have d: "\<bar>?y - x\<bar> \<le> ?u / 2" by simp
  have "pow2 e = 2 ^ 52 * ?u" by (rule pow2_split52)
  then have "?u / 2 = pow2 e / 2 ^ 53" by simp
  also have "\<dots> \<le> x / 2 ^ 53" using assms(1) by (simp add: divide_right_mono)
  finally have err: "\<bar>?y - x\<bar> \<le> x / 2 ^ 53" using d by linarith
  have m: "2 ^ 52 \<le> ?m" "?m \<le> 2 ^ 53" using assms(1,2) by (rule mantissa_bounds)+
  from m(1) have "rat_of_int (2 ^ 52) \<le> rat_of_int ?m" by (simp only: of_int_le_iff)
  then have "2 ^ 52 * ?u \<le> ?y" using u by (simp add: mult_right_mono)
  then have lo: "pow2 e \<le> ?y" by (simp only: pow2_split52 [symmetric])
  from m(2) have "rat_of_int ?m \<le> rat_of_int (2 ^ 53)" by (simp only: of_int_le_iff)
  then have "?y \<le> 2 ^ 53 * ?u" using u by (simp add: mult_right_mono)
  then have hi: "?y \<le> pow2 (e + 1)" by (simp only: pow2_split53 [symmetric])
  from e err lo hi show ?thesis by blast
qed

lemma pow2_less_D: "pow2 a < pow2 b \<Longrightarrow> a < b"
proof (rule ccontr)
  assume "pow2 a < pow2 b" "\<not> a < b"
  then have "pow2 b \<le> pow2 a" by (intro pow2_mono) simp
  with \<open>pow2 a < pow2 b\<close> show False by simp
qed

lemma to_double_of_nat:
  assumes "0 < n" "n < 2 ^ 53"
  shows "to_double (of_nat n) = Finite (of_nat n)"
proof -
  let ?x = "of_nat n :: rat"
  define e where "e = floor_log2 ?x"
  have x: "0 < ?x" using assms(1) by simp
  from floor_log2_bounds [OF x] have b: "pow2 e \<le> ?x" "?x < pow2 (e + 1)" by (simp_all add: e_def)
  have "pow2 0 = 1" by (simp add: pow2_def)
  moreover have "1 \<le> ?x" using assms(1) by simp
  ultimately have "pow2 0 < pow2 (e + 1)" using b(2) by linarith
  then have "0 < e + 1" by (rule pow2_less_D)
  then have e0: "0 \<le> e" by simp
  have p53: "pow2 53 = 2 ^ 53" by (simp add: pow2_def)
  have "?x < of_nat (2 ^ 53)" using assms(2) by (simp only: of_nat_less_iff)
  then have "?x < pow2 53" by (simp add: p53)
  with b(1) have "pow2 e < pow2 53" by linarith
  then have "e < 53" by (rule pow2_less_D)
  then have e52: "e \<le> 52" by simp
  have one: "pow2 (e - 52) * 2 ^ nat (52 - e) = 1"
  proof -
    have "pow2 (e - 52) * pow2 (52 - e) = pow2 0" by (simp flip: pow2_add)
    moreover have "pow2 (52 - e) = 2 ^ nat (52 - e)" using e52 by (simp add: pow2_def)
    moreover have "pow2 0 = 1" by (simp add: pow2_def)
    ultimately show ?thesis by simp
  qed
  have "of_int (int n * 2 ^ nat (52 - e)) * pow2 (e - 52)
          = ?x * (pow2 (e - 52) * 2 ^ nat (52 - e))"
    by (simp add: mult.assoc mult.commute)
  then have eq: "?x = of_int (int n * 2 ^ nat (52 - e)) * pow2 (e - 52)"
    by (simp only: one mult_1_right)
  have r: "- 1022 \<le> e" "e \<le> 1022" using e0 e52 by simp_all
  show ?thesis by (rule to_double_exact [OF b(1) b(2) r(1) r(2) eq])
qed


text \<open>The spec's example: reserves 1000 and 500, supply 10000 with 0 decimals.\<close>

lemma example_price:
  "js_div (Number_formatEther 1000) (Number_formatEther 500) = Finite 2"
proof -
  let ?x = "1000 / 10 ^ 18 :: rat"
  have b: "pow2 (- 50) \<le> ?x" "?x < pow2 (- 50 + 1)" by (simp_all add: pow2_def)
  have r: "- 1022 \<le> (- 50 :: int)" "(- 50 :: int) \<le> 1022"
          "- 1022 \<le> (- 50 :: int) + (- 1)" "(- 50 :: int) + (- 1) \<le> 1022" by simp_all
  from to_double_error [OF b r(1) r(2)] obtain y
    where y: "to_double ?x = Finite y" "pow2 (- 50) \<le> y" by blast
  have y0: "y \<noteq> 0" using y(2) pow2_pos [of "- 50"] by linarith
  have half: "pow2 (- 1) = 1 / 2" by (simp add: pow2_def)
  have "to_double (?x * pow2 (- 1)) = Finite (y * pow2 (- 1))"
    by (rule to_double_scale [OF b r y(1)])
  then have h: "to_double (500 / 10 ^ 18) = Finite (y / 2)" by (simp add: half)
  have two: "to_double 2 = Finite 2"
    using to_double_of_nat [of 2] by simp
  have "y / (y / 2) = 2" using y0 by simp
  then show ?thesis
    using y(1) h y0 two by (simp add: Number_formatEther_def Number_formatUnits_def)
qed

lemma example_cap:
  "js_mul (Number_formatUnits 10000 0) (Finite 2) = Finite 20000"
proof -
  have a: "to_double 10000 = Finite 10000" using to_double_of_nat [of 10000] by simp
  have b: "to_double 20000 = Finite 20000" using to_double_of_nat [of 20000] by simp
  show ?thesis using a b by (simp add: Number_formatUnits_def)
qed

section \<open>The pool of the example\<close>

lemma example_pool_slot:
  "toLowerCase (lit ''0xE538905cF8410324e03A5a23C1c177a474D59b2B'') = toLowerCase WOKB_ADDR"
  by (simp add: toLowerCase_def WOKB_ADDR_def lit_simps)

lemma example_pool_price: "priceInWOKB example_pool = Some (Finite 2)"
  by (simp add: priceInWOKB_def example_pool_def example_pool_slot example_price)

lemma example_pool_cap: "marketCapUSD example_pool = Some (Finite 20000)"
proof -
  have "totalSupply_call example_pool = Some 10000" "token_decimals_call example_pool = Some 0"
    by (simp_all add: example_pool_def)
  then show ?thesis
    by (simp add: marketCapUSD_def example_pool_price number_truthy_def example_cap)
qed




section \<open>An alert in every cycle\<close>

lemma alert_user_prefs:
  "m u = Some p \<Longrightarrow> fst (alert_user t c cap v m) u = Some p"
  by (auto simp: alert_user_def Let_def getPrefs_def split: option.splits)

lemma alert_users_prefs:
  "m u = Some p \<Longrightarrow> fst (alert_users t c cap vs m) u = Some p"
proof (induction vs arbitrary: m)
  case Nil
  then show ?case by simp
next
  case (Cons v vs)
  have "fst (alert_user t c cap v m) u = Some p" using Cons.prems by (rule alert_user_prefs)
  then have "fst (alert_users t c cap vs (fst (alert_user t c cap v m))) u = Some p"
    by (rule Cons.IH)
  then show ?case by (simp add: split_beta Let_def)
qed

lemma check_tokens_prefs:
  "m u = Some p \<Longrightarrow> fst (check_tokens env reg m) u = Some p"
proof (induction reg arbitrary: m)
  case Nil
  then show ?case by simp
next
  case (Cons td reg)
  obtain t d where td: "td = (t, d)" by (cases td)
  show ?case
  proof (cases "marketCapUSD (env t)")
    case None
    with Cons td show ?thesis by simp
  next
    case (Some cap)
    have "fst (alert_users t (env t) cap (users d) m) u = Some p"
      using Cons.prems by (rule alert_users_prefs)
    then have "fst (check_tokens env reg (fst (alert_users t (env t) cap (users d) m))) u = Some p"
      by (rule Cons.IH)
    then show ?thesis using Some td by (simp add: split_beta Let_def)
  qed
qed

lemma alert_user_emits:
  assumes "m u = Some p" "mcUsdThreshold p = Some th" "threshold_truthy (Some th)"
    and "js_ge cap (Finite (of_int th))"
  shows "list_ex (is_alert_to u t) (snd (alert_user t c cap u m))"
  using assms by (simp add: alert_user_def getPrefs_def threshold_truthy_def)

lemma alert_users_emits:
  assumes "u \<in> set vs" "m u = Some p" "mcUsdThreshold p = Some th" "threshold_truthy (Some th)"
    and "js_ge cap (Finite (of_int th))"
  shows "list_ex (is_alert_to u t) (snd (alert_users t c cap vs m))"
  using assms(1,2)
proof (induction vs arbitrary: m)
  case Nil
  then show ?case by simp
next
  case (Cons v vs)
  show ?case
  proof (cases "v = u")
    case True
    have "list_ex (is_alert_to u t) (snd (alert_user t c cap u m))"
      using Cons.prems(2) assms(3,4,5) by (rule alert_user_emits)
    with True show ?thesis by (simp add: split_beta Let_def)
  next
    case False
    with Cons.prems have "u \<in> set vs" by simp
    moreover have "fst (alert_user t c cap v m) u = Some p"
      using Cons.prems(2) by (rule alert_user_prefs)
    ultimately have "list_ex (is_alert_to u t)
        (snd (alert_users t c cap vs (fst (alert_user t c cap v m))))"
      by (rule Cons.IH)
    then show ?thesis by (simp add: split_beta Let_def)
  qed
qed

lemma check_tokens_emits:
  assumes "(t, d) \<in> set reg" "u \<in> set (users d)" "m u = Some p" "mcUsdThreshold p = Some th"
    and "threshold_truthy (Some th)" "marketCapUSD (env t) = Some cap"
    and "js_ge cap (Finite (of_int th))"
  shows "list_ex (is_alert_to u t) (snd (check_tokens env reg m))"
  using assms(1,3)
proof (induction reg arbitrary: m)
  case Nil
  then show ?case by simp
next
  case (Cons td reg)
  obtain t' d' where td: "td = (t', d')" by (cases td)
  show ?case
  proof (cases "td = (t, d)")
    case True
    have "list_ex (is_alert_to u t) (snd (alert_users t (env t) cap (users d) m))"
      using assms(2) Cons.prems(2) assms(4,5,7) by (rule alert_users_emits)
    with True assms(6) show ?thesis by (simp add: split_beta Let_def)
  next
    case False
    with Cons.prems have in_reg: "(t, d) \<in> set reg" by simp
    show ?thesis
    proof (cases "marketCapUSD (env t')")
      case None
      moreover have "list_ex (is_alert_to u t) (snd (check_tokens env reg m))"
        using in_reg Cons.prems(2) by (rule Cons.IH)
      ultimately show ?thesis using td by simp
    next
      case (Some cap')
      have "fst (alert_users t' (env t') cap' (users d') m) u = Some p"
        using Cons.prems(2) by (rule alert_users_prefs)
      with in_reg have "list_ex (is_alert_to u t)
          (snd (check_tokens env reg (fst (alert_users t' (env t') cap' (users d') m))))"
        by (rule Cons.IH)
      then show ?thesis using Some td by (simp add: split_beta Let_def)
    qed
  qed
qed

lemma checkMarketCapAlerts_real:
  assumes "\<not> now - lastMcCheck s < MC_CHECK_INTERVAL"
  shows "checkMarketCapAlerts now env s =
     (s\<lparr>lastMcCheck := now,
        userPushPrefs := fst (check_tokens env (marketCapAlerts s) (userPushPrefs s))\<rparr>,
      snd (check_tokens env (marketCapAlerts s) (userPushPrefs s)))"
  using assms by (simp add: checkMarketCapAlerts_def Let_def split_beta)

text \<open>
  Claim C4. A subscriber of a token's alert entry whose threshold is set (a value the
  program reads as set: not null and not 0) is sent an alert in every one of a run of real
  checks in which the computed market cap is at or above the threshold: a check leaves the
  registry and the threshold as they were and keeps no record of the alerts it sent.
\<close>

theorem alert_every_cycle:
  assumes "(tokenAddr, alertData) \<in> set (marketCapAlerts s)"
    and "userId \<in> set (users alertData)"
    and "userPushPrefs s userId = Some p"
    and "mcUsdThreshold p = Some th"
    and "threshold_truthy (Some th)"
    and "spaced (lastMcCheck s) (map fst cs)"
    and "list_all (cap_reaches tokenAddr th) cs"
  shows "length (run_checks cs s) = length cs
       \<and> list_all (list_ex (is_alert_to userId tokenAddr)) (run_checks cs s)"
  using assms(1,3,6,7)
proof (induction cs arbitrary: s)
  case Nil
  then show ?case by simp
next
  case (Cons cyc cs)
  obtain now env where cyc: "cyc = (now, env)" by (cases cyc)
  from Cons.prems(3) cyc have real: "\<not> now - lastMcCheck s < MC_CHECK_INTERVAL"
    and sp: "spaced now (map fst cs)" by simp_all
  from Cons.prems(4) have cr: "cap_reaches tokenAddr th cyc"
    and rest: "list_all (cap_reaches tokenAddr th) cs" by simp_all
  from cr cyc obtain cap where cap: "marketCapUSD (env tokenAddr) = Some cap"
    "js_ge cap (Finite (of_int th))"
    by (auto simp: cap_reaches_def split: option.splits)
  let ?m = "fst (check_tokens env (marketCapAlerts s) (userPushPrefs s))"
  let ?acts = "snd (check_tokens env (marketCapAlerts s) (userPushPrefs s))"
  let ?s1 = "s\<lparr>lastMcCheck := now, userPushPrefs := ?m\<rparr>"
  have run1: "checkMarketCapAlerts now env s = (?s1, ?acts)"
    using real by (rule checkMarketCapAlerts_real)
  have here: "list_ex (is_alert_to userId tokenAddr) ?acts"
    using Cons.prems(1) assms(2) Cons.prems(2) assms(4,5) cap by (rule check_tokens_emits)
  have "?m userId = Some p" using Cons.prems(2) by (rule check_tokens_prefs)
  then have p1: "userPushPrefs ?s1 userId = Some p" by simp
  have "length (run_checks cs ?s1) = length cs
       \<and> list_all (list_ex (is_alert_to userId tokenAddr)) (run_checks cs ?s1)"
    using Cons.prems(1) p1 sp rest by (intro Cons.IH) simp_all
  with here run1 cyc show ?case by simp
qed

theorem alert_every_cycle_witness:
  "spaced 0 [300000, 600000, 900000]
   \<and> list_all (cap_reaches (lit ''0xA'') 15000)
        [(300000, \<lambda>t. example_pool), (600000, \<lambda>t. example_pool), (900000, \<lambda>t. example_pool)]
   \<and> length (run_checks
        [(300000, \<lambda>t. example_pool), (600000, \<lambda>t. example_pool), (900000, \<lambda>t. example_pool)]
        (init_state\<lparr>marketCapAlerts := [(lit ''0xA'', \<lparr> lastPushed = 0, users = [7] \<rparr>)],
           userPushPrefs := [7 \<mapsto> default_prefs\<lparr>mcUsdThreshold := Some 15000\<rparr>]\<rparr>)) = 3
   \<and> list_all (list_ex (is_alert_to 7 (lit ''0xA''))) (run_checks
        [(300000, \<lambda>t. example_pool), (600000, \<lambda>t. example_pool), (900000, \<lambda>t. example_pool)]
        (init_state\<lparr>marketCapAlerts := [(lit ''0xA'', \<lparr> lastPushed = 0, users = [7] \<rparr>)],
           userPushPrefs := [7 \<mapsto> default_prefs\<lparr>mcUsdThreshold := Some 15000\<rparr>]\<rparr>))"
proof -
  let ?s = "init_state\<lparr>marketCapAlerts := [(lit ''0xA'', \<lparr> lastPushed = 0, users = [7::int] \<rparr>)],
           userPushPrefs := [7 \<mapsto> default_prefs\<lparr>mcUsdThreshold := Some 15000\<rparr>]\<rparr>"
  let ?cs = "[(300000::int, \<lambda>t::address. example_pool), (600000, \<lambda>t. example_pool),
              (900000, \<lambda>t. example_pool)]"
  have h1: "(lit ''0xA'', \<lparr> lastPushed = 0, users = [7::int] \<rparr>) \<in> set (marketCapAlerts ?s)"
    by (simp add: init_state_def)
  have h2: "(7::int) \<in> set (users \<lparr> lastPushed = 0, users = [7::int] \<rparr>)" by simp
  have h3: "userPushPrefs ?s 7 = Some (default_prefs\<lparr>mcUsdThreshold := Some 15000\<rparr>)"
    by (simp add: init_state_def)
  have h4: "mcUsdThreshold (default_prefs\<lparr>mcUsdThreshold := Some 15000\<rparr>) = Some 15000" by simp
  have h5: "threshold_truthy (Some 15000)" by (simp add: threshold_truthy_def)
  have h6: "spaced (lastMcCheck ?s) (map fst ?cs)"
    by (simp add: init_state_def MC_CHECK_INTERVAL_def)
  have h7: "list_all (cap_reaches (lit ''0xA'') 15000) ?cs"
    by (simp add: cap_reaches_def example_pool_cap)
  have h8: "spaced 0 [300000, 600000, 900000]" by (simp add: MC_CHECK_INTERVAL_def)
  from alert_every_cycle [OF h1 h2 h3 h4 h5 h6 h7] h7 h8 show ?thesis by simp
qed

section \<open>How far the doubles are from the exact quotient and product\<close>











end
